theory Spec2Isabelle
  imports Main "HOL-Library.Word"
begin

unbundle bit_operations_syntax

section \<open>HmSearch: a shallow embedding of hmsearch.hpp\<close>

text \<open>
  The index of the repository (namespace \<open>hmsearch\<close>) is embedded function by function.
  Conventions of the embedding:
  \<^item> a key or query (\<open>const T*\<close>) is a \<open>nat list\<close> of symbols; reading \<open>key[j]\<close> is
    \<open>key ! j\<close>, so a key handed to a function must have at least the length that the
    function reads (in C++ a shorter buffer is an out-of-bounds read);
  \<^item> \<open>uint32_t\<close> and \<open>uint64_t\<close> values are \<open>nat\<close>, with the wrap-around of 32-bit
    arithmetic written out as \<open>u32\<close>; the 64-bit hash is a \<open>64 word\<close>; parameters of
    type \<open>uint32_t\<close> are below \<open>2 ^ 32\<close>, and so is the number of keys (ids are
    \<open>uint32_t\<close>);
  \<^item> every \<open>exit(1)\<close> is an \<open>error\<close> value, \<open>hash % 0\<close> (undefined behaviour, a trap
    on the usual targets) is the error \<open>ModuloByZero\<close>, and a \<open>while (true)\<close> loop is a
    \<^theory_text>\<open>partial_function\<close> in the option monad, where \<open>None\<close> means that the loop
    never exits;
  \<^item> a \<open>std::unordered_map\<close> is an association list with distinct keys; its iteration
    order, which C++ leaves unspecified, is the order of first insertion. No statement
    below about emitted id sets, table sizes or termination depends on that choice;
  \<^item> the callback \<open>fn\<close> is replaced by the list of ids it is called with, in call order.
\<close>

subsection \<open>Machine arithmetic and library helpers\<close>

definition UINT32_MAX :: nat where
  "UINT32_MAX = 4294967295"

definition u32 :: "nat \<Rightarrow> nat" where
  "u32 n = n mod 4294967296"

datatype error =
    UnsupportedLength
  | AlphabetTooLarge
  | InvalidAlphabet
  | TooManySignatures
  | RadiusMismatch
  | ModuloByZero

type_synonym 'a result = "(error + 'a) option"

text \<open>Number of binary digits of a number; \<open>sdsl::bits::hi\<close> is the position of the most
  significant set bit, and 0 for 0.\<close>

fun bit_length :: "nat \<Rightarrow> nat" where
  "bit_length n = (if n = 0 then 0 else Suc (bit_length (n div 2)))"

declare bit_length.simps [simp del]

definition bits_hi :: "nat \<Rightarrow> nat" where
  "bits_hi x = bit_length x - 1"

text \<open>\<open>sdsl::bits::cnt\<close>: the number of set bits.\<close>

fun bits_cnt :: "nat \<Rightarrow> nat" where
  "bits_cnt n = (if n = 0 then 0 else n mod 2 + bits_cnt (n div 2))"

declare bits_cnt.simps [simp del]

text \<open>
  \<open>static_cast<size_t>(signature_map.size() * LOAD_FACTOR)\<close> with
  \<open>LOAD_FACTOR = 1.5f\<close>: the size is converted to single precision, multiplied in single
  precision and truncated. \<open>f32_round\<close> is rounding to nearest, ties to even, of a natural
  number to 24 significant bits. Scaling by a power of two is exact, so the rounded
  product \<open>1.5 * f\<close> is half the rounding of \<open>3 * f\<close>.
\<close>

definition f32_round :: "nat \<Rightarrow> nat" where
  "f32_round n =
     (if bit_length n \<le> 24 then n
      else let k = bit_length n - 24;
               q = n div 2 ^ k;
               rest = n mod 2 ^ k;
               half = 2 ^ (k - 1)
           in (if half < rest \<or> (rest = half \<and> odd q) then q + 1 else q) * 2 ^ k)"

definition scaled_table_size :: "nat \<Rightarrow> nat" where
  "scaled_table_size n = f32_round (3 * f32_round n) div 2"

subsection \<open>Free functions\<close>

definition fnv1a_hash :: "nat list \<Rightarrow> 64 word" where
  "fnv1a_hash key =
     fold (\<lambda>k hash. (hash XOR of_nat k) * 0x100000001b3) key 0xcbf29ce484222325"

definition make_vertical_code :: "nat list \<Rightarrow> nat \<Rightarrow> nat \<Rightarrow> nat" where
  "make_vertical_code key len level =
     fold (\<lambda>j code. code OR push_bit j (drop_bit level (key ! j) AND 1)) [0..<len] 0"

definition get_proper_buckets :: "nat \<Rightarrow> nat" where
  "get_proper_buckets hamming_range = u32 (hamming_range + 3) div 2"

subsection \<open>The one-deletion-variant table (class \<open>odv_index\<close>)\<close>

record element_t =
  sig_pos :: nat
  id_beg :: nat
  id_end :: nat

text \<open>An \<open>sdsl::int_vector<>\<close>: elements of \<open>iv_width\<close> bits each; a write keeps the low
  \<open>iv_width\<close> bits of the value.\<close>

record int_vector =
  iv_width :: nat
  iv_data :: "nat list"

definition iv_new :: "nat \<Rightarrow> nat \<Rightarrow> int_vector" where
  "iv_new n w = \<lparr>iv_width = w, iv_data = replicate n 0\<rparr>"

definition iv_copy :: "nat list \<Rightarrow> nat \<Rightarrow> int_vector \<Rightarrow> int_vector" where
  "iv_copy src pos v =
     v\<lparr>iv_data := take pos (iv_data v) @ map (\<lambda>x. x mod 2 ^ iv_width v) src
                    @ drop (pos + length src) (iv_data v)\<rparr>"

record odv_index =
  m_table :: "element_t list"
  m_ids :: "nat list"
  m_signatures :: int_vector
  m_length :: nat
  m_del_marker :: nat

type_synonym signature_map = "(nat list \<times> nat list) list"

definition make_signature :: "nat \<Rightarrow> nat \<Rightarrow> nat list \<Rightarrow> nat \<Rightarrow> nat list" where
  "make_signature len del_marker key i = (take len key)[i := del_marker]"

text \<open>\<open>find\<close> followed by \<open>push_back\<close> on a hit and \<open>insert\<close> on a miss.\<close>

fun signature_map_add :: "signature_map \<Rightarrow> nat list \<Rightarrow> nat \<Rightarrow> signature_map" where
  "signature_map_add [] sig i = [(sig, [i])]"
| "signature_map_add ((s, ids) # m) sig i =
     (if s = sig then (s, ids @ [i]) # m else (s, ids) # signature_map_add m sig i)"

text \<open>The inner loop over the positions \<open>j\<close> of key \<open>i\<close>, and the outer loop over the keys.\<close>

fun collect_positions ::
  "nat \<Rightarrow> nat \<Rightarrow> nat list \<Rightarrow> nat \<Rightarrow> nat list \<Rightarrow> signature_map \<Rightarrow> error + signature_map" where
  "collect_positions len alphabet_size key i [] m = Inr m"
| "collect_positions len alphabet_size key i (j # js) m =
     (if alphabet_size \<le> key ! j then Inl InvalidAlphabet
      else collect_positions len alphabet_size key i js
             (signature_map_add m (make_signature len alphabet_size key j) i))"

fun collect_keys ::
  "nat \<Rightarrow> nat \<Rightarrow> nat list list \<Rightarrow> nat \<Rightarrow> signature_map \<Rightarrow> error + signature_map" where
  "collect_keys len alphabet_size [] i m = Inr m"
| "collect_keys len alphabet_size (key # keys) i m =
     (case collect_positions len alphabet_size key i [0..<len] m of
        Inl e \<Rightarrow> Inl e
      | Inr m' \<Rightarrow> collect_keys len alphabet_size keys (Suc i) m')"

definition vacant :: element_t where
  "vacant = \<lparr>sig_pos = UINT32_MAX, id_beg = 0, id_end = 0\<rparr>"

definition next_pos :: "nat \<Rightarrow> nat \<Rightarrow> nat" where
  "next_pos table_size pos = (if pos + 1 = table_size then 0 else pos + 1)"

text \<open>The body of the vacant branch in \<open>build\<close>: the slot \<open>pos\<close> receives the position of
  the signature and the range of its ids; the signature and the ids are appended to
  their stores.\<close>

definition store_signature :: "odv_index \<Rightarrow> nat \<Rightarrow> nat list \<Rightarrow> nat list \<Rightarrow> nat \<Rightarrow> odv_index" where
  "store_signature idx sig_beg sig ids pos =
     idx\<lparr>m_table := (m_table idx)[pos :=
              \<lparr>sig_pos = u32 (sig_beg div m_length idx),
               id_beg = u32 (length (m_ids idx)),
               id_end = u32 (length (m_ids idx) + length ids)\<rparr>],
          m_ids := m_ids idx @ ids,
          m_signatures := iv_copy sig sig_beg (m_signatures idx)\<rparr>"

text \<open>The \<open>while (true)\<close> loop of \<open>build\<close> for one signature: linear probing from \<open>pos\<close>
  to the first vacant slot, which receives the entry. The second component is the
  local \<open>sig_beg\<close>.\<close>

partial_function (option) insert_probe ::
  "odv_index \<Rightarrow> nat \<Rightarrow> nat list \<Rightarrow> nat list \<Rightarrow> nat \<Rightarrow> (odv_index \<times> nat) option" where
  "insert_probe idx sig_beg sig ids pos =
     (if sig_pos (m_table idx ! pos) = UINT32_MAX
      then Some (store_signature idx sig_beg sig ids pos, sig_beg + m_length idx)
      else insert_probe idx sig_beg sig ids (next_pos (length (m_table idx)) pos))"

fun insert_all :: "odv_index \<Rightarrow> nat \<Rightarrow> signature_map \<Rightarrow> odv_index result" where
  "insert_all idx sig_beg [] = Some (Inr idx)"
| "insert_all idx sig_beg ((sig, ids) # kvs) =
     (if length (m_table idx) = 0 then Some (Inl ModuloByZero)
      else case insert_probe idx sig_beg sig ids
                  (unat (fnv1a_hash sig) mod length (m_table idx)) of
             None \<Rightarrow> None
           | Some (idx', sig_beg') \<Rightarrow> insert_all idx' sig_beg' kvs)"

text \<open>The members after \<open>m_table.resize\<close> and the construction of \<open>m_signatures\<close>, for a
  signature map of \<open>n\<close> entries.\<close>

definition odv_allocate :: "nat \<Rightarrow> nat \<Rightarrow> nat \<Rightarrow> odv_index" where
  "odv_allocate n len alphabet_size =
     \<lparr>m_table = replicate (scaled_table_size n) vacant,
      m_ids = [],
      m_signatures = iv_new (n * len) (bits_hi alphabet_size + 1),
      m_length = len,
      m_del_marker = alphabet_size\<rparr>"

definition odv_build :: "nat list list \<Rightarrow> nat \<Rightarrow> nat \<Rightarrow> odv_index result" where
  "odv_build keys len alphabet_size =
     (if alphabet_size = UINT32_MAX then Some (Inl AlphabetTooLarge)
      else case collect_keys len alphabet_size keys 0 [] of
             Inl e \<Rightarrow> Some (Inl e)
           | Inr signature_map \<Rightarrow>
               if UINT32_MAX < length signature_map then Some (Inl TooManySignatures)
               else insert_all (odv_allocate (length signature_map) len alphabet_size)
                      0 signature_map)"

text \<open>\<open>std::equal\<close> of the signature against the stored signature of slot \<open>pos\<close>, and the
  ids of that slot, in the order of the loop that hands them to the callback.\<close>

definition slot_matches :: "odv_index \<Rightarrow> nat list \<Rightarrow> nat \<Rightarrow> bool" where
  "slot_matches idx sig pos =
     (sig = take (length sig)
              (drop (u32 (sig_pos (m_table idx ! pos) * m_length idx))
                 (iv_data (m_signatures idx))))"

definition slot_ids :: "odv_index \<Rightarrow> nat \<Rightarrow> nat list" where
  "slot_ids idx pos =
     map (\<lambda>i. m_ids idx ! i) [id_beg (m_table idx ! pos)..<id_end (m_table idx ! pos)]"

text \<open>The \<open>while (true)\<close> loop of \<open>search\<close> for one signature; the result is the list of ids
  handed to the callback.\<close>

partial_function (option) search_probe :: "odv_index \<Rightarrow> nat list \<Rightarrow> nat \<Rightarrow> nat list option" where
  "search_probe idx sig pos =
     (if sig_pos (m_table idx ! pos) = UINT32_MAX then Some []
      else if slot_matches idx sig pos then Some (slot_ids idx pos)
      else search_probe idx sig (next_pos (length (m_table idx)) pos))"

fun odv_search_positions :: "odv_index \<Rightarrow> nat list \<Rightarrow> nat list \<Rightarrow> nat list result" where
  "odv_search_positions idx key [] = Some (Inr [])"
| "odv_search_positions idx key (j # js) =
     (if length (m_table idx) = 0 then Some (Inl ModuloByZero)
      else case search_probe idx (make_signature (m_length idx) (m_del_marker idx) key j)
                  (unat (fnv1a_hash (make_signature (m_length idx) (m_del_marker idx) key j))
                     mod length (m_table idx)) of
             None \<Rightarrow> None
           | Some ids \<Rightarrow>
               (case odv_search_positions idx key js of
                  None \<Rightarrow> None
                | Some (Inl e) \<Rightarrow> Some (Inl e)
                | Some (Inr rest) \<Rightarrow> Some (Inr (ids @ rest))))"

definition odv_search :: "odv_index \<Rightarrow> nat list \<Rightarrow> nat list result" where
  "odv_search idx key = odv_search_positions idx key [0..<m_length idx]"

subsection \<open>The index (class \<open>hm_index\<close>, vertical mode)\<close>

record hm_index =
  m_odv_indexes :: "odv_index list"
  m_bucket_begs :: "nat list"
  m_hm_length :: nat
  m_alphabet_size :: nat
  m_buckets :: nat
  m_vertical_keys :: int_vector
  m_vertical_levels :: nat

text \<open>The value of the local \<open>bucket_beg\<close> after \<open>b\<close> rounds of the planning loop;
  \<open>m_bucket_begs[b]\<close> receives it for every \<open>b \<le> m_buckets\<close>.\<close>

primrec bucket_beg :: "nat \<Rightarrow> nat \<Rightarrow> nat \<Rightarrow> nat" where
  "bucket_beg len buckets 0 = 0"
| "bucket_beg len buckets (Suc b) =
     u32 (bucket_beg len buckets b + u32 (len + b) div buckets)"

definition plan_buckets :: "nat \<Rightarrow> nat \<Rightarrow> nat list" where
  "plan_buckets len buckets = map (bucket_beg len buckets) [0..<buckets + 1]"

text \<open>\<open>m_bucket_begs[b + 1] - m_bucket_begs[b]\<close> in \<open>uint32_t\<close>: the width of bucket \<open>b\<close>.\<close>

definition bucket_width :: "nat list \<Rightarrow> nat \<Rightarrow> nat" where
  "bucket_width begs b = u32 (begs ! (b + 1) + 4294967296 - begs ! b)"

text \<open>The loop that builds one table per bucket; an \<open>exit(1)\<close> inside a table build ends
  the whole build.\<close>

fun build_buckets :: "nat list list \<Rightarrow> nat list \<Rightarrow> nat \<Rightarrow> nat list \<Rightarrow> odv_index list result" where
  "build_buckets keys begs alphabet_size [] = Some (Inr [])"
| "build_buckets keys begs alphabet_size (b # bs) =
     (case odv_build (map (drop (begs ! b)) keys) (bucket_width begs b) alphabet_size of
        None \<Rightarrow> None
      | Some (Inl e) \<Rightarrow> Some (Inl e)
      | Some (Inr odv) \<Rightarrow>
          (case build_buckets keys begs alphabet_size bs of
             None \<Rightarrow> None
           | Some (Inl e) \<Rightarrow> Some (Inl e)
           | Some (Inr odvs) \<Rightarrow> Some (Inr (odv # odvs))))"

definition build_vertical_keys :: "nat list list \<Rightarrow> nat \<Rightarrow> nat \<Rightarrow> int_vector" where
  "build_vertical_keys keys len levels =
     \<lparr>iv_width = len,
      iv_data = concat (map (\<lambda>key. map (\<lambda>j. make_vertical_code key len j mod 2 ^ len)
                                       [0..<levels]) keys)\<rparr>"

definition hm_build :: "nat list list \<Rightarrow> nat \<Rightarrow> nat \<Rightarrow> nat \<Rightarrow> hm_index result" where
  "hm_build keys len alphabet_size buckets =
     (if 64 < len then Some (Inl UnsupportedLength)
      else case build_buckets keys (plan_buckets len buckets) alphabet_size [0..<buckets] of
             None \<Rightarrow> None
           | Some (Inl e) \<Rightarrow> Some (Inl e)
           | Some (Inr odvs) \<Rightarrow>
               Some (Inr \<lparr>m_odv_indexes = odvs,
                          m_bucket_begs = plan_buckets len buckets,
                          m_hm_length = len,
                          m_alphabet_size = alphabet_size,
                          m_buckets = buckets,
                          m_vertical_keys =
                            build_vertical_keys keys len (bits_hi alphabet_size + 1),
                          m_vertical_levels = bits_hi alphabet_size + 1\<rparr>))"

text \<open>The callback of \<open>search\<close>: one more hit for \<open>id\<close> in \<open>match_map\<close>.\<close>

fun match_map_add :: "(nat \<times> nat) list \<Rightarrow> nat \<Rightarrow> (nat \<times> nat) list" where
  "match_map_add [] i = [(i, 1)]"
| "match_map_add ((k, c) # m) i =
     (if k = i then (k, u32 (c + 1)) # m else (k, c) # match_map_add m i)"

definition collect_matches :: "nat list \<Rightarrow> (nat \<times> nat) list" where
  "collect_matches ids = fold (\<lambda>i m. match_map_add m i) ids []"

text \<open>Folding one entry of \<open>match_map\<close> into \<open>cand_map\<close>, and the loop over \<open>match_map\<close>.\<close>

fun cand_map_add :: "(nat \<times> nat list) list \<Rightarrow> nat \<times> nat \<Rightarrow> (nat \<times> nat list) list" where
  "cand_map_add [] (i, c) = [(i, [if 2 < c then 0 else 1])]"
| "cand_map_add ((k, v) # m) (i, c) =
     (if k = i then (k, v @ [if 2 < c then 0 else 1]) # m
      else (k, v) # cand_map_add m (i, c))"

definition fold_match_map ::
  "(nat \<times> nat) list \<Rightarrow> (nat \<times> nat list) list \<Rightarrow> (nat \<times> nat list) list" where
  "fold_match_map match_map cand_map = fold (\<lambda>kv m. cand_map_add m kv) match_map cand_map"

text \<open>The loop over the buckets in \<open>search\<close>.\<close>

fun search_buckets ::
  "hm_index \<Rightarrow> nat list \<Rightarrow> nat list \<Rightarrow> (nat \<times> nat list) list \<Rightarrow> (nat \<times> nat list) list result" where
  "search_buckets idx query [] cand_map = Some (Inr cand_map)"
| "search_buckets idx query (b # bs) cand_map =
     (case odv_search (m_odv_indexes idx ! b) (drop (m_bucket_begs idx ! b) query) of
        None \<Rightarrow> None
      | Some (Inl e) \<Rightarrow> Some (Inl e)
      | Some (Inr ids) \<Rightarrow>
          search_buckets idx query bs (fold_match_map (collect_matches ids) cand_map))"

text \<open>The enhanced filter: the value of the local \<open>filtered\<close>.\<close>

definition filtered :: "nat \<Rightarrow> nat list \<Rightarrow> bool" where
  "filtered hamming_range range_vec =
     (if hamming_range mod 2 = 0
      then length range_vec < 2 \<and> range_vec ! 0 = 1
      else length range_vec < 3 \<and>
           (length range_vec = 1 \<or> (range_vec ! 0 = 1 \<and> range_vec ! 1 = 1)))"

text \<open>The verification loop over the bit planes: arguments are the remaining pairs of stored
  plane and query plane, \<open>cumdiff\<close> and \<open>hammina_dist\<close>; the result is the final
  \<open>hammina_dist\<close>.\<close>

fun verify_planes :: "nat \<Rightarrow> (nat \<times> nat) list \<Rightarrow> nat \<Rightarrow> nat \<Rightarrow> nat" where
  "verify_planes hamming_range [] cumdiff dist = dist"
| "verify_planes hamming_range ((k, q) # ps) cumdiff dist =
     (if hamming_range < bits_cnt (cumdiff OR (k XOR q)) then bits_cnt (cumdiff OR (k XOR q))
      else verify_planes hamming_range ps (cumdiff OR (k XOR q))
             (bits_cnt (cumdiff OR (k XOR q))))"

definition hammina_dist :: "hm_index \<Rightarrow> nat list \<Rightarrow> nat \<Rightarrow> nat \<Rightarrow> nat" where
  "hammina_dist idx vertical_query hamming_range cand_id =
     verify_planes hamming_range
       (map (\<lambda>j. (iv_data (m_vertical_keys idx) ! (u32 (cand_id * m_vertical_levels idx) + j),
                   vertical_query ! j))
            [0..<m_vertical_levels idx])
       0 0"

text \<open>One round of the loop over \<open>cand_map\<close>: the candidate is verified when the filter
  lets it through, and its id is handed to \<open>fn\<close> when the verified distance is within
  the range.\<close>

definition reaches_verification :: "nat \<Rightarrow> nat \<times> nat list \<Rightarrow> bool" where
  "reaches_verification hamming_range kv = (\<not> filtered hamming_range (snd kv))"

definition emits :: "hm_index \<Rightarrow> nat list \<Rightarrow> nat \<Rightarrow> nat \<times> nat list \<Rightarrow> bool" where
  "emits idx vertical_query hamming_range kv =
     (reaches_verification hamming_range kv \<and>
      hammina_dist idx vertical_query hamming_range (fst kv) \<le> hamming_range)"

text \<open>\<open>hm_index::search\<close>. The function is declared \<open>void\<close>: its only output is the
  sequence of calls of \<open>fn\<close>, which is the result here.\<close>

definition hm_search :: "hm_index \<Rightarrow> nat list \<Rightarrow> nat \<Rightarrow> nat list result" where
  "hm_search idx query hamming_range =
     (if m_buckets idx \<noteq> get_proper_buckets hamming_range then Some (Inl RadiusMismatch)
      else case search_buckets idx query [0..<m_buckets idx] [] of
             None \<Rightarrow> None
           | Some (Inl e) \<Rightarrow> Some (Inl e)
           | Some (Inr cand_map) \<Rightarrow>
               Some (Inr (map fst
                      (filter (emits idx
                                 (map (make_vertical_code query (m_hm_length idx))
                                    [0..<m_vertical_levels idx])
                                 hamming_range)
                         cand_map))))"

subsection \<open>Serialization (\<open>serialize\<close> and \<open>load\<close>)\<close>

text \<open>
  Both classes write their members with \<open>sdsl::serialize\<close> and read them back with
  \<open>sdsl::load\<close>. These are functions of the SDSL library, not of the repository; they are
  parameters of the embedding. A stream is the list of its bytes: a writer yields the
  bytes it appends, a reader takes the unread bytes and yields the value with the bytes
  left over, or \<open>None\<close> when the stream does not hold a value. The last two fields stand
  for the library's \<open>std::vector\<close> overload at a class type, which calls the \<open>serialize\<close>
  or \<open>load\<close> member of every element.
\<close>

record sdsl_io =
  write_u32 :: "nat \<Rightarrow> nat list"
  read_u32 :: "nat list \<Rightarrow> (nat \<times> nat list) option"
  write_u32_vector :: "nat list \<Rightarrow> nat list"
  read_u32_vector :: "nat list \<Rightarrow> (nat list \<times> nat list) option"
  write_table :: "element_t list \<Rightarrow> nat list"
  read_table :: "nat list \<Rightarrow> (element_t list \<times> nat list) option"
  write_int_vector :: "int_vector \<Rightarrow> nat list"
  read_int_vector :: "nat list \<Rightarrow> (int_vector \<times> nat list) option"
  write_vector :: "(odv_index \<Rightarrow> nat list) \<Rightarrow> odv_index list \<Rightarrow> nat list"
  read_vector :: "(nat list \<Rightarrow> (odv_index \<times> nat list) option) \<Rightarrow> nat list
                    \<Rightarrow> (odv_index list \<times> nat list) option"

definition odv_serialize :: "sdsl_io \<Rightarrow> odv_index \<Rightarrow> nat list" where
  "odv_serialize io idx =
     write_table io (m_table idx) @ write_u32_vector io (m_ids idx)
       @ write_int_vector io (m_signatures idx) @ write_u32 io (m_length idx)
       @ write_u32 io (m_del_marker idx)"

definition odv_load :: "sdsl_io \<Rightarrow> nat list \<Rightarrow> (odv_index \<times> nat list) option" where
  "odv_load io inp =
     (case read_table io inp of None \<Rightarrow> None | Some (table, in1) \<Rightarrow>
      case read_u32_vector io in1 of None \<Rightarrow> None | Some (ids, in2) \<Rightarrow>
      case read_int_vector io in2 of None \<Rightarrow> None | Some (signatures, in3) \<Rightarrow>
      case read_u32 io in3 of None \<Rightarrow> None | Some (len, in4) \<Rightarrow>
      case read_u32 io in4 of None \<Rightarrow> None | Some (del_marker, in5) \<Rightarrow>
        Some (\<lparr>m_table = table, m_ids = ids, m_signatures = signatures, m_length = len,
                m_del_marker = del_marker\<rparr>, in5))"

definition hm_serialize :: "sdsl_io \<Rightarrow> hm_index \<Rightarrow> nat list" where
  "hm_serialize io idx =
     write_vector io (odv_serialize io) (m_odv_indexes idx)
       @ write_u32_vector io (m_bucket_begs idx) @ write_u32 io (m_hm_length idx)
       @ write_u32 io (m_alphabet_size idx) @ write_u32 io (m_buckets idx)
       @ write_int_vector io (m_vertical_keys idx) @ write_u32 io (m_vertical_levels idx)"

definition hm_load :: "sdsl_io \<Rightarrow> nat list \<Rightarrow> (hm_index \<times> nat list) option" where
  "hm_load io inp =
     (case read_vector io (odv_load io) inp of None \<Rightarrow> None | Some (odvs, in1) \<Rightarrow>
      case read_u32_vector io in1 of None \<Rightarrow> None | Some (begs, in2) \<Rightarrow>
      case read_u32 io in2 of None \<Rightarrow> None | Some (len, in3) \<Rightarrow>
      case read_u32 io in3 of None \<Rightarrow> None | Some (alphabet_size, in4) \<Rightarrow>
      case read_u32 io in4 of None \<Rightarrow> None | Some (buckets, in5) \<Rightarrow>
      case read_int_vector io in5 of None \<Rightarrow> None | Some (vertical_keys, in6) \<Rightarrow>
      case read_u32 io in6 of None \<Rightarrow> None | Some (levels, in7) \<Rightarrow>
        Some (\<lparr>m_odv_indexes = odvs, m_bucket_begs = begs, m_hm_length = len,
                m_alphabet_size = alphabet_size, m_buckets = buckets,
                m_vertical_keys = vertical_keys, m_vertical_levels = levels\<rparr>, in7))"

text \<open>The values that the C++ members can hold: 32-bit numbers, vectors of fewer than
  \<open>2 ^ 64\<close> elements, and integer vectors whose elements fit their width of at most 64
  bits.\<close>

definition representable_u32 :: "nat \<Rightarrow> bool" where
  "representable_u32 x = (x < 4294967296)"

definition representable_size :: "'a list \<Rightarrow> bool" where
  "representable_size xs = (length xs < 18446744073709551616)"

definition representable_element :: "element_t \<Rightarrow> bool" where
  "representable_element e =
     (representable_u32 (sig_pos e) \<and> representable_u32 (id_beg e)
        \<and> representable_u32 (id_end e))"

definition representable_int_vector :: "int_vector \<Rightarrow> bool" where
  "representable_int_vector v =
     (iv_width v \<le> 64 \<and> representable_size (iv_data v)
        \<and> list_all (\<lambda>x. x < 2 ^ iv_width v) (iv_data v))"

definition representable_odv :: "odv_index \<Rightarrow> bool" where
  "representable_odv idx =
     (representable_size (m_table idx) \<and> list_all representable_element (m_table idx)
        \<and> representable_size (m_ids idx) \<and> list_all representable_u32 (m_ids idx)
        \<and> representable_int_vector (m_signatures idx)
        \<and> representable_u32 (m_length idx) \<and> representable_u32 (m_del_marker idx))"

definition representable_index :: "hm_index \<Rightarrow> bool" where
  "representable_index idx =
     (representable_size (m_odv_indexes idx) \<and> list_all representable_odv (m_odv_indexes idx)
        \<and> representable_size (m_bucket_begs idx)
        \<and> list_all representable_u32 (m_bucket_begs idx)
        \<and> representable_u32 (m_hm_length idx) \<and> representable_u32 (m_alphabet_size idx)
        \<and> representable_u32 (m_buckets idx)
        \<and> representable_int_vector (m_vertical_keys idx)
        \<and> representable_u32 (m_vertical_levels idx))"

text \<open>What the embedding asks of the library: a reader gives back the representable value
  that its writer wrote, and leaves the bytes behind it unread. For the vector of tables
  this holds whenever it holds for the element functions handed in.\<close>

definition sdsl_round_trip :: "sdsl_io \<Rightarrow> bool" where
  "sdsl_round_trip io =
     ((\<forall>x rest. representable_u32 x \<longrightarrow> read_u32 io (write_u32 io x @ rest) = Some (x, rest)) \<and>
      (\<forall>xs rest. representable_size xs \<longrightarrow> list_all representable_u32 xs \<longrightarrow>
         read_u32_vector io (write_u32_vector io xs @ rest) = Some (xs, rest)) \<and>
      (\<forall>t rest. representable_size t \<longrightarrow> list_all representable_element t \<longrightarrow>
         read_table io (write_table io t @ rest) = Some (t, rest)) \<and>
      (\<forall>v rest. representable_int_vector v \<longrightarrow>
         read_int_vector io (write_int_vector io v @ rest) = Some (v, rest)) \<and>
      (\<forall>put get xs rest. representable_size xs \<longrightarrow>
         (\<forall>x\<in>set xs. \<forall>r. get (put x @ r) = Some (x, r)) \<longrightarrow>
         read_vector io get (write_vector io put xs @ rest) = Some (xs, rest)))"

text \<open>
  One instance of the library functions, used to show that the requirement on them can be
  met: numbers as little-endian bytes, a vector as its 64-bit size followed by its elements,
  a table entry as its three 32-bit members, and an integer vector as its width in one
  byte followed by its elements in 64 bits each.
\<close>

fun le_bytes :: "nat \<Rightarrow> nat \<Rightarrow> nat list" where
  "le_bytes 0 x = []"
| "le_bytes (Suc n) x = x mod 256 # le_bytes n (x div 256)"

fun le_value :: "nat list \<Rightarrow> nat" where
  "le_value [] = 0"
| "le_value (b # bs) = b + 256 * le_value bs"

definition read_le :: "nat \<Rightarrow> nat list \<Rightarrow> (nat \<times> nat list) option" where
  "read_le n inp = (if length inp < n then None else Some (le_value (take n inp), drop n inp))"

fun read_many ::
  "(nat list \<Rightarrow> ('a \<times> nat list) option) \<Rightarrow> nat \<Rightarrow> nat list \<Rightarrow> ('a list \<times> nat list) option" where
  "read_many get 0 inp = Some ([], inp)"
| "read_many get (Suc n) inp =
     (case get inp of None \<Rightarrow> None | Some (x, in1) \<Rightarrow>
      case read_many get n in1 of None \<Rightarrow> None | Some (xs, in2) \<Rightarrow> Some (x # xs, in2))"

definition write_sized :: "('a \<Rightarrow> nat list) \<Rightarrow> 'a list \<Rightarrow> nat list" where
  "write_sized put xs = le_bytes 8 (length xs) @ concat (map put xs)"

definition read_sized ::
  "(nat list \<Rightarrow> ('a \<times> nat list) option) \<Rightarrow> nat list \<Rightarrow> ('a list \<times> nat list) option" where
  "read_sized get inp =
     (case read_le 8 inp of None \<Rightarrow> None | Some (n, in1) \<Rightarrow> read_many get n in1)"

definition write_element :: "element_t \<Rightarrow> nat list" where
  "write_element e = le_bytes 4 (sig_pos e) @ le_bytes 4 (id_beg e) @ le_bytes 4 (id_end e)"

definition read_element :: "nat list \<Rightarrow> (element_t \<times> nat list) option" where
  "read_element inp =
     (case read_le 4 inp of None \<Rightarrow> None | Some (s, in1) \<Rightarrow>
      case read_le 4 in1 of None \<Rightarrow> None | Some (b, in2) \<Rightarrow>
      case read_le 4 in2 of None \<Rightarrow> None | Some (e, in3) \<Rightarrow>
        Some (\<lparr>sig_pos = s, id_beg = b, id_end = e\<rparr>, in3))"

definition write_iv :: "int_vector \<Rightarrow> nat list" where
  "write_iv v = le_bytes 1 (iv_width v) @ write_sized (le_bytes 8) (iv_data v)"

definition read_iv :: "nat list \<Rightarrow> (int_vector \<times> nat list) option" where
  "read_iv inp =
     (case read_le 1 inp of None \<Rightarrow> None | Some (w, in1) \<Rightarrow>
      case read_sized (read_le 8) in1 of None \<Rightarrow> None | Some (d, in2) \<Rightarrow>
        Some (\<lparr>iv_width = w, iv_data = d\<rparr>, in2))"

definition le_io :: sdsl_io where
  "le_io =
     \<lparr>write_u32 = le_bytes 4, read_u32 = read_le 4,
      write_u32_vector = write_sized (le_bytes 4), read_u32_vector = read_sized (read_le 4),
      write_table = write_sized write_element, read_table = read_sized read_element,
      write_int_vector = write_iv, read_int_vector = read_iv,
      write_vector = write_sized, read_vector = read_sized\<rparr>"

subsection \<open>The reference distance of the test driver\<close>

text \<open>\<open>compute_hamming_distance\<close> of the driver, the brute-force oracle of its test mode: the
  loop over the positions \<open>k\<close>, which stops once the distance exceeds \<open>range\<close>.\<close>

fun hamming_loop :: "nat list \<Rightarrow> nat list \<Rightarrow> nat list \<Rightarrow> nat \<Rightarrow> nat \<Rightarrow> nat" where
  "hamming_loop x y [] rng dist = dist"
| "hamming_loop x y (k # ks) rng dist =
     (if x ! k \<noteq> y ! k
      then (if rng < dist + 1 then dist + 1 else hamming_loop x y ks rng (dist + 1))
      else hamming_loop x y ks rng dist)"

definition compute_hamming_distance :: "nat list \<Rightarrow> nat list \<Rightarrow> nat \<Rightarrow> nat \<Rightarrow> nat" where
  "compute_hamming_distance x y len rng = hamming_loop x y [0..<len] rng 0"

subsection \<open>Notions used in the statements\<close>

text \<open>The signatures of the key slices of a bucket, in the order in which \<open>build\<close> forms
  them, the number of distinct ones, and the number of occupied slots of a table.\<close>

definition all_signatures :: "nat list list \<Rightarrow> nat \<Rightarrow> nat \<Rightarrow> nat list list" where
  "all_signatures keys len alphabet_size =
     concat (map (\<lambda>key. map (make_signature len alphabet_size key) [0..<len]) keys)"

definition distinct_signatures :: "nat list list \<Rightarrow> nat \<Rightarrow> nat \<Rightarrow> nat" where
  "distinct_signatures keys len alphabet_size =
     length (remdups (all_signatures keys len alphabet_size))"

definition occupied :: "element_t list \<Rightarrow> nat" where
  "occupied tbl = length (filter (\<lambda>e. sig_pos e \<noteq> UINT32_MAX) tbl)"

text \<open>The ids that the table of bucket \<open>b\<close> reports for a query (one entry per matching
  signature, so an id can occur several times), and the list that the buckets \<open>bs\<close>, taken in
  turn, contribute to the candidate \<open>i\<close>: one entry for every bucket that reports \<open>i\<close>, which
  is 0 when the bucket reports \<open>i\<close> more than twice and 1 otherwise.\<close>

definition bucket_ids :: "hm_index \<Rightarrow> nat list \<Rightarrow> nat \<Rightarrow> nat list" where
  "bucket_ids idx query b =
     (case odv_search (m_odv_indexes idx ! b) (drop (m_bucket_begs idx ! b) query) of
        Some (Inr ids) \<Rightarrow> ids
      | _ \<Rightarrow> [])"

definition bucket_codes :: "hm_index \<Rightarrow> nat list \<Rightarrow> nat list \<Rightarrow> nat \<Rightarrow> nat list" where
  "bucket_codes idx query bs i =
     concat (map (\<lambda>b. if i \<in> set (bucket_ids idx query b)
                      then [if 2 < u32 (count_list (bucket_ids idx query b) i) then 0 else 1]
                      else [])
                 bs)"

subsection \<open>Concrete inputs\<close>

text \<open>The keys of the first two scenarios of the specification (length 4, alphabet size 2) and
  the index that \<open>build\<close> makes of them with two buckets.\<close>

definition scenario_keys :: "nat list list" where
  "scenario_keys = [[0, 0, 0, 0], [1, 1, 1, 1], [1, 0, 0, 0], [0, 1, 1, 1]]"

definition scenario_odv_0 :: odv_index where
  "scenario_odv_0 =
     \<lparr>m_table =
        [\<lparr>sig_pos = 2, id_beg = 4, id_end = 6\<rparr>,
         \<lparr>sig_pos = 0, id_beg = 0, id_end = 2\<rparr>,
         \<lparr>sig_pos = 3, id_beg = 6, id_end = 8\<rparr>,
         \<lparr>sig_pos = 4294967295, id_beg = 0, id_end = 0\<rparr>,
         \<lparr>sig_pos = 4294967295, id_beg = 0, id_end = 0\<rparr>,
         \<lparr>sig_pos = 1, id_beg = 2, id_end = 4\<rparr>],
      m_ids = [0, 2, 0, 3, 1, 3, 1, 2],
      m_signatures = \<lparr>iv_width = 2, iv_data = [2, 0, 0, 2, 2, 1, 1, 2]\<rparr>,
      m_length = 2,
      m_del_marker = 2\<rparr>"

definition scenario_odv_1 :: odv_index where
  "scenario_odv_1 =
     \<lparr>m_table =
        [\<lparr>sig_pos = 2, id_beg = 4, id_end = 6\<rparr>,
         \<lparr>sig_pos = 0, id_beg = 0, id_end = 2\<rparr>,
         \<lparr>sig_pos = 3, id_beg = 6, id_end = 8\<rparr>,
         \<lparr>sig_pos = 4294967295, id_beg = 0, id_end = 0\<rparr>,
         \<lparr>sig_pos = 4294967295, id_beg = 0, id_end = 0\<rparr>,
         \<lparr>sig_pos = 1, id_beg = 2, id_end = 4\<rparr>],
      m_ids = [0, 2, 0, 2, 1, 3, 1, 3],
      m_signatures = \<lparr>iv_width = 2, iv_data = [2, 0, 0, 2, 2, 1, 1, 2]\<rparr>,
      m_length = 2,
      m_del_marker = 2\<rparr>"

definition scenario_index :: hm_index where
  "scenario_index =
     \<lparr>m_odv_indexes = [scenario_odv_0, scenario_odv_1],
      m_bucket_begs = [0, 2, 4],
      m_hm_length = 4,
      m_alphabet_size = 2,
      m_buckets = 2,
      m_vertical_keys = \<lparr>iv_width = 4, iv_data = [0, 0, 15, 0, 1, 0, 14, 0]\<rparr>,
      m_vertical_levels = 2\<rparr>"

text \<open>The index that \<open>build\<close> makes of the single key \<open>[0, 0]\<close> over the one-symbol
  alphabet, with one bucket.\<close>

definition unary_index :: hm_index where
  "unary_index =
     \<lparr>m_odv_indexes =
        [\<lparr>m_table =
            [\<lparr>sig_pos = 1, id_beg = 1, id_end = 2\<rparr>,
             \<lparr>sig_pos = 0, id_beg = 0, id_end = 1\<rparr>,
             \<lparr>sig_pos = 4294967295, id_beg = 0, id_end = 0\<rparr>],
          m_ids = [0, 0],
          m_signatures = \<lparr>iv_width = 1, iv_data = [1, 0, 0, 1]\<rparr>,
          m_length = 2,
          m_del_marker = 1\<rparr>],
      m_bucket_begs = [0, 2],
      m_hm_length = 2,
      m_alphabet_size = 1,
      m_buckets = 1,
      m_vertical_keys = \<lparr>iv_width = 2, iv_data = [0]\<rparr>,
      m_vertical_levels = 1\<rparr>"

text \<open>The table of the single key slice \<open>[0, 0, 0]\<close> over the alphabet of size 2, and the
  index of no keys at all (length 2, alphabet size 2, one bucket).\<close>

definition three_signature_odv :: odv_index where
  "three_signature_odv =
     \<lparr>m_table =
        [\<lparr>sig_pos = 4294967295, id_beg = 0, id_end = 0\<rparr>,
         \<lparr>sig_pos = 0, id_beg = 0, id_end = 1\<rparr>,
         \<lparr>sig_pos = 1, id_beg = 1, id_end = 2\<rparr>,
         \<lparr>sig_pos = 2, id_beg = 2, id_end = 3\<rparr>],
      m_ids = [0, 0, 0],
      m_signatures = \<lparr>iv_width = 2, iv_data = [2, 0, 0, 0, 2, 0, 0, 0, 2]\<rparr>,
      m_length = 3,
      m_del_marker = 2\<rparr>"

definition empty_index :: hm_index where
  "empty_index =
     \<lparr>m_odv_indexes =
        [\<lparr>m_table = [], m_ids = [], m_signatures = \<lparr>iv_width = 2, iv_data = []\<rparr>,
          m_length = 2, m_del_marker = 2\<rparr>],
      m_bucket_begs = [0, 2],
      m_hm_length = 2,
      m_alphabet_size = 2,
      m_buckets = 1,
      m_vertical_keys = \<lparr>iv_width = 2, iv_data = []\<rparr>,
      m_vertical_levels = 2\<rparr>"

text \<open>A table that \<open>build\<close> cannot produce, as a damaged stream could load it: a single
  slot, occupied by the signature \<open>[2, 0]\<close>, and no vacant slot.\<close>

definition full_table_odv :: odv_index where
  "full_table_odv =
     \<lparr>m_table = [\<lparr>sig_pos = 0, id_beg = 0, id_end = 1\<rparr>],
      m_ids = [0],
      m_signatures = \<lparr>iv_width = 2, iv_data = [2, 0]\<rparr>,
      m_length = 2,
      m_del_marker = 2\<rparr>"

text \<open>The index that \<open>build\<close> makes of the single key \<open>[0, 0, 0]\<close> (alphabet size 2) with
  one bucket, and the index that it makes of the keys \<open>[0, 0]\<close> and \<open>[1, 1]\<close> (alphabet
  size 2) with three buckets, one more than the keys have symbols: its first bucket has
  width 0.\<close>

definition triple_index :: hm_index where
  "triple_index =
     \<lparr>m_odv_indexes = [three_signature_odv],
      m_bucket_begs = [0, 3],
      m_hm_length = 3,
      m_alphabet_size = 2,
      m_buckets = 1,
      m_vertical_keys = \<lparr>iv_width = 3, iv_data = [0, 0]\<rparr>,
      m_vertical_levels = 2\<rparr>"

definition narrow_index :: hm_index where
  "narrow_index =
     \<lparr>m_odv_indexes =
        [\<lparr>m_table = [], m_ids = [], m_signatures = \<lparr>iv_width = 2, iv_data = []\<rparr>,
          m_length = 0, m_del_marker = 2\<rparr>,
         \<lparr>m_table = [\<lparr>sig_pos = 0, id_beg = 0, id_end = 2\<rparr>],
          m_ids = [0, 1],
          m_signatures = \<lparr>iv_width = 2, iv_data = [2]\<rparr>,
          m_length = 1, m_del_marker = 2\<rparr>,
         \<lparr>m_table = [\<lparr>sig_pos = 0, id_beg = 0, id_end = 2\<rparr>],
          m_ids = [0, 1],
          m_signatures = \<lparr>iv_width = 2, iv_data = [2]\<rparr>,
          m_length = 1, m_del_marker = 2\<rparr>],
      m_bucket_begs = [0, 0, 1, 2],
      m_hm_length = 2,
      m_alphabet_size = 2,
      m_buckets = 3,
      m_vertical_keys = \<lparr>iv_width = 2, iv_data = [0, 0, 3, 0]\<rparr>,
      m_vertical_levels = 2\<rparr>"

section \<open>Properties\<close>

subsection \<open>The bucket planner\<close>

lemma div_step:
  fixes L B k :: nat
  assumes "0 < B" "k < B"
  shows "(L + k) div B = L div B + (if B \<le> L mod B + k then 1 else 0)"
proof -
  have "L + k = L div B * B + (L mod B + k)" by simp
  then have "(L + k) div B = L div B + (L mod B + k) div B"
    using assms by (metis div_mult_self3 less_numeral_extra(3))
  moreover have "(L mod B + k) div B = (if B \<le> L mod B + k then 1 else 0)"
  proof (cases "B \<le> L mod B + k")
    case True
    have "L mod B < B" using assms by simp
    then have "L mod B + k < 2 * B" using assms by linarith
    then have "(L mod B + k) div B < 2" using assms by (simp add: less_mult_imp_div_less)
    moreover have "1 \<le> (L mod B + k) div B" using True assms by (simp add: div_greater_zero_iff Suc_leI)
    ultimately show ?thesis using True by simp
  next
    case False
    then show ?thesis by simp
  qed
  ultimately show ?thesis by simp
qed

lemma bucket_beg_closed:
  assumes "0 < B" "B \<le> L" "L \<le> 64" "k \<le> B"
  shows "bucket_beg L B k = k * (L div B) + (k + L mod B - B)"
  using assms(4)
proof (induction k)
  case 0
  then show ?case using assms by simp
next
  case (Suc k)
  then have k: "k < B" "k \<le> B" by simp_all
  have ih: "bucket_beg L B k = k * (L div B) + (k + L mod B - B)" using Suc.IH k by simp
  have small1: "L + k < 4294967296" using assms k by simp
  have step: "(L + k) div B = L div B + (if B \<le> L mod B + k then 1 else 0)"
    using div_step[OF assms(1) k(1)] .
  have "Suc k * (L div B) \<le> B * (L div B)" using Suc.prems by (rule mult_le_mono1)
  also have "\<dots> \<le> L" by simp
  finally have b1: "Suc k * (L div B) \<le> 64" using assms by simp
  have "L mod B < B" using assms by simp
  then have b2: "Suc k + L mod B - B \<le> 64" using assms k by linarith
  have val: "bucket_beg L B k + (L + k) div B = Suc k * (L div B) + (Suc k + L mod B - B)"
    unfolding ih step by (auto simp: algebra_simps)
  have "bucket_beg L B (Suc k) = u32 (bucket_beg L B k + (L + k) div B)"
    using small1 by (simp add: u32_def)
  also have "\<dots> = Suc k * (L div B) + (Suc k + L mod B - B)"
    unfolding val using b1 b2 by (simp add: u32_def)
  finally show ?case .
qed

lemma bucket_beg_last:
  assumes "0 < B" "B \<le> L" "L \<le> 64"
  shows "bucket_beg L B B = L"
  using bucket_beg_closed[OF assms order_refl] by simp

lemma width_ge_1:
  fixes L B b :: nat
  assumes "0 < B" "B \<le> L"
  shows "1 \<le> (L + b) div B"
proof -
  have "B \<le> L + b" using assms by simp
  then show ?thesis using assms(1) by (simp add: div_greater_zero_iff Suc_leI)
qed

lemma width_diff:
  fixes L B b c :: nat
  assumes "0 < B" "b < B" "c < B"
  shows "(L + b) div B \<le> (L + c) div B + 1"
  using div_step[OF assms(1,2), of L] div_step[OF assms(1,3), of L] by (simp split: if_splits)

lemma bucket_beg_bound:
  assumes "0 < B" "B \<le> L" "L \<le> 64" "k \<le> B"
  shows "bucket_beg L B k \<le> L"
proof -
  have m: "k * (L div B) \<le> B * (L div B)" using assms(4) by (rule mult_le_mono1)
  have "L mod B < B" using assms by simp
  have "bucket_beg L B k = k * (L div B) + (k + L mod B - B)"
    using bucket_beg_closed[OF assms] .
  also have "\<dots> \<le> k * (L div B) + L mod B" using assms(4) by simp
  also have "\<dots> \<le> B * (L div B) + L mod B" using m by (rule add_le_mono1)
  also have "\<dots> = L" by simp
  finally show ?thesis .
qed

lemma bucket_beg_Suc:
  assumes "0 < B" "B \<le> L" "L \<le> 64" "k < B"
  shows "bucket_beg L B (Suc k) = bucket_beg L B k + (L + k) div B"
proof -
  have "bucket_beg L B k \<le> L" using bucket_beg_bound[OF assms(1-3)] assms(4) by simp
  moreover have "(L + k) div B \<le> L + k" by (rule div_le_dividend)
  ultimately have "bucket_beg L B k + (L + k) div B < 4294967296" using assms by linarith
  moreover have "L + k < 4294967296" using assms by linarith
  ultimately show ?thesis by (simp add: u32_def)
qed

lemma bucket_beg_sum:
  assumes "0 < B" "B \<le> L" "L \<le> 64" "k \<le> B"
  shows "bucket_beg L B k = (\<Sum>b<k. (L + b) div B)"
  using assms(4)
proof (induction k)
  case 0
  then show ?case by simp
next
  case (Suc k)
  then show ?case using bucket_beg_Suc[OF assms(1-3), of k] by simp
qed

lemma plan_buckets_nth:
  "k \<le> B \<Longrightarrow> plan_buckets L B ! k = bucket_beg L B k"
  unfolding plan_buckets_def by (simp add: nth_map_upt del: upt_Suc)

lemma bucket_width_plan:
  assumes "0 < B" "B \<le> L" "L \<le> 64" "b < B"
  shows "bucket_width (plan_buckets L B) b = (L + b) div B"
proof -
  have le: "bucket_beg L B (Suc b) \<le> L" using bucket_beg_bound[OF assms(1-3), of "Suc b"] assms(4) by simp
  have "bucket_width (plan_buckets L B) b = u32 (bucket_beg L B (Suc b) + 4294967296 - bucket_beg L B b)"
    using assms(4) by (simp add: bucket_width_def plan_buckets_nth)
  also have "\<dots> = u32 ((L + b) div B + 4294967296)"
    using bucket_beg_Suc[OF assms] by simp
  also have "\<dots> = (L + b) div B"
    using le bucket_beg_Suc[OF assms] assms(3) by (simp add: u32_def)
  finally show ?thesis .
qed

lemma hm_build_fields:
  assumes "hm_build keys len alphabet_size buckets = Some (Inr idx)"
  shows "len \<le> 64" "m_bucket_begs idx = plan_buckets len buckets"
    "m_hm_length idx = len" "m_alphabet_size idx = alphabet_size" "m_buckets idx = buckets"
    "m_vertical_levels idx = bits_hi alphabet_size + 1"
    "m_vertical_keys idx = build_vertical_keys keys len (bits_hi alphabet_size + 1)"
    "build_buckets keys (plan_buckets len buckets) alphabet_size [0..<buckets] = Some (Inr (m_odv_indexes idx))"
  using assms by (auto simp: hm_build_def split: if_splits option.splits sum.splits)

text \<open>
  Claim C7 (bucket partition). After a successful \<open>build\<close> with \<open>1 \<le> buckets \<le> length\<close>,
  the cumulative array starts at 0 and ends at the key length, bucket \<open>b\<close> has width
  \<open>(length + b) div buckets\<close>, the widths add up to the key length, any two widths differ
  by at most one, and every width is at least one.
\<close>

theorem bucket_partition:
  assumes "hm_build keys len alphabet_size buckets = Some (Inr idx)"
    and "1 \<le> buckets" and "buckets \<le> len"
  shows "m_bucket_begs idx ! 0 = 0 \<and>
         m_bucket_begs idx ! buckets = len \<and>
         (\<forall>b<buckets. bucket_width (m_bucket_begs idx) b = (len + b) div buckets) \<and>
         (\<Sum>b<buckets. bucket_width (m_bucket_begs idx) b) = len \<and>
         (\<forall>b<buckets. \<forall>c<buckets.
             bucket_width (m_bucket_begs idx) b \<le> bucket_width (m_bucket_begs idx) c + 1) \<and>
         (\<forall>b<buckets. 1 \<le> bucket_width (m_bucket_begs idx) b)"
proof -
  have B: "0 < buckets" using assms(2) by simp
  have L: "len \<le> 64" and begs: "m_bucket_begs idx = plan_buckets len buckets"
    using hm_build_fields[OF assms(1)] by simp_all
  have w: "bucket_width (m_bucket_begs idx) b = (len + b) div buckets" if "b < buckets" for b
    unfolding begs using bucket_width_plan[OF B assms(3) L that] .
  have "m_bucket_begs idx ! 0 = 0" unfolding begs by (simp add: plan_buckets_nth)
  moreover have "m_bucket_begs idx ! buckets = len"
    unfolding begs using bucket_beg_last[OF B assms(3) L] by (simp add: plan_buckets_nth)
  moreover have "(\<Sum>b<buckets. bucket_width (m_bucket_begs idx) b) = len"
  proof -
    have "(\<Sum>b<buckets. bucket_width (m_bucket_begs idx) b) = (\<Sum>b<buckets. (len + b) div buckets)"
      by (rule sum.cong) (simp_all add: w)
    also have "\<dots> = bucket_beg len buckets buckets"
      using bucket_beg_sum[OF B assms(3) L order_refl] by simp
    also have "\<dots> = len" using bucket_beg_last[OF B assms(3) L] .
    finally show ?thesis .
  qed
  moreover have "\<forall>b<buckets. \<forall>c<buckets.
             bucket_width (m_bucket_begs idx) b \<le> bucket_width (m_bucket_begs idx) c + 1"
    using width_diff[OF B] by (simp add: w)
  moreover have "\<forall>b<buckets. 1 \<le> bucket_width (m_bucket_begs idx) b"
    using width_ge_1[OF B assms(3)] by (simp add: w)
  ultimately show ?thesis using w by simp
qed

subsection \<open>Evaluation of the concrete inputs\<close>

lemma replicate_numeral: "replicate (numeral k) x = x # replicate (pred_numeral k) x"
  by (simp add: numeral_eq_Suc)

lemma list_update_numeral: "(x # xs)[numeral k := y] = x # xs[pred_numeral k := y]"
  by (simp add: numeral_eq_Suc)

lemmas odv_build_eval = odv_build_def odv_allocate_def upt_rec make_signature_def
  scaled_table_size_def f32_round_def bit_length.simps bits_hi_def insert_probe.simps
  store_signature_def vacant_def iv_new_def iv_copy_def fnv1a_hash_def UINT32_MAX_def u32_def
  next_pos_def replicate_numeral list_update_numeral

lemmas odv_search_eval = odv_search_def upt_rec make_signature_def search_probe.simps
  slot_matches_def slot_ids_def fnv1a_hash_def UINT32_MAX_def u32_def next_pos_def

lemma scenario_odv_0_build: "odv_build scenario_keys 2 2 = Some (Inr scenario_odv_0)"
  by (simp add: odv_build_eval scenario_odv_0_def scenario_keys_def)

lemma scenario_odv_1_build:
  "odv_build [[0, 0], [1, 1], [0, 0], [1, 1]] 2 2 = Some (Inr scenario_odv_1)"
  by (simp add: odv_build_eval scenario_odv_1_def)

lemma scenario_build: "hm_build scenario_keys 4 2 2 = Some (Inr scenario_index)"
proof -
  have plan: "plan_buckets 4 2 = [0, 2, 4]"
    by (simp add: plan_buckets_def upt_rec u32_def)
  have upt: "[0..<2] = [0, 1::nat]"
    by (simp add: upt_rec)
  have k0: "map (drop ([0, 2, 4] ! 0)) scenario_keys = scenario_keys"
    by simp
  have k1: "map (drop ([0, 2, 4] ! 1)) scenario_keys = [[0, 0], [1, 1], [0, 0], [1, 1]]"
    by (simp add: scenario_keys_def)
  have w: "bucket_width [0, 2, 4] 0 = 2" "bucket_width [0, 2, 4] 1 = 2"
    by (simp_all add: bucket_width_def u32_def)
  have bb: "build_buckets scenario_keys [0, 2, 4] 2 [0, 1]
              = Some (Inr [scenario_odv_0, scenario_odv_1])"
    by (simp only: build_buckets.simps k0 k1 w scenario_odv_0_build scenario_odv_1_build
        option.case sum.case)
  have levels: "bits_hi 2 + 1 = 2"
    by (simp add: bits_hi_def bit_length.simps)
  have v: "build_vertical_keys scenario_keys 4 2
             = \<lparr>iv_width = 4, iv_data = [0, 0, 15, 0, 1, 0, 14, 0]\<rparr>"
    by (simp add: build_vertical_keys_def make_vertical_code_def scenario_keys_def upt_rec)
  show ?thesis
    unfolding hm_build_def plan upt bb levels v scenario_index_def by simp
qed

lemma scenario_odv_0_search: "odv_search scenario_odv_0 [0, 0, 0, 0] = Some (Inr [0, 2, 0, 3])"
  by (simp add: odv_search_eval scenario_odv_0_def)

lemma scenario_odv_1_search: "odv_search scenario_odv_1 [0, 0] = Some (Inr [0, 2, 0, 2])"
  by (simp add: odv_search_eval scenario_odv_1_def)

text \<open>Witness for C7: the index of the scenario keys.\<close>

theorem bucket_partition_witness:
  "hm_build scenario_keys 4 2 2 = Some (Inr scenario_index) \<and> (1::nat) \<le> 2 \<and> (2::nat) \<le> 4 \<and>
   m_bucket_begs scenario_index ! 0 = 0 \<and>
   m_bucket_begs scenario_index ! 2 = 4 \<and>
   bucket_width (m_bucket_begs scenario_index) 0 = 2 \<and>
   bucket_width (m_bucket_begs scenario_index) 1 = 2 \<and>
   (\<Sum>b<2. bucket_width (m_bucket_begs scenario_index) b) = 4"
proof -
  have h: "(1::nat) \<le> 2" "(2::nat) \<le> 4" by simp_all
  note bp = bucket_partition [OF scenario_build h]
  have "bucket_width (m_bucket_begs scenario_index) 0 = 2"
       "bucket_width (m_bucket_begs scenario_index) 1 = 2"
    using bp by simp_all
  then show ?thesis
    using bp scenario_build h by blast
qed

subsection \<open>The match map and the candidate map\<close>

lemma map_of_match_map_add:
  "map_of (match_map_add m i) j =
     (if j = i then Some (case map_of m i of None \<Rightarrow> 1 | Some c \<Rightarrow> u32 (c + 1)) else map_of m j)"
  by (induction m i rule: match_map_add.induct) auto

lemma keys_match_map_add:
  "map fst (match_map_add m i) = (if i \<in> set (map fst m) then map fst m else map fst m @ [i])"
  by (induction m i rule: match_map_add.induct) auto

lemma distinct_match_map_add:
  "distinct (map fst m) \<Longrightarrow> distinct (map fst (match_map_add m i))"
  by (simp add: keys_match_map_add)

lemma distinct_fold_match_map_add:
  "distinct (map fst m) \<Longrightarrow> distinct (map fst (fold (\<lambda>i m. match_map_add m i) ids m))"
  by (induction ids arbitrary: m) (simp_all add: distinct_match_map_add)

lemma distinct_collect_matches: "distinct (map fst (collect_matches ids))"
  unfolding collect_matches_def by (rule distinct_fold_match_map_add) simp

lemma u32_Suc_u32: "u32 (Suc (u32 n)) = u32 (Suc n)"
  unfolding u32_def by (simp add: mod_Suc_eq)

lemma map_of_fold_match_map_add:
  "map_of (fold (\<lambda>i m. match_map_add m i) ids m) j =
     (if count_list ids j = 0 then map_of m j
      else Some (case map_of m j of None \<Rightarrow> u32 (count_list ids j)
                 | Some c \<Rightarrow> u32 (c + count_list ids j)))"
proof (induction ids arbitrary: m)
  case Nil
  then show ?case by simp
next
  case (Cons i ids)
  show ?case
  proof (cases "i = j")
    case False
    then show ?thesis by (simp add: Cons.IH map_of_match_map_add split: option.splits)
  next
    case True
    have b: "u32 (u32 (Suc c) + n) = u32 (c + Suc n)" for c n
      unfolding u32_def by (simp add: mod_add_left_eq)
    show ?thesis
    proof (cases "count_list ids j = 0")
      case z: True
      show ?thesis using z
        by (simp add: True Cons.IH map_of_match_map_add u32_def split: option.splits)
    next
      case nz: False
      show ?thesis using nz
        by (simp add: True Cons.IH map_of_match_map_add b split: option.splits)
    qed
  qed
qed

lemma map_of_collect_matches:
  "map_of (collect_matches ids) j =
     (if j \<in> set ids then Some (u32 (count_list ids j)) else None)"
  unfolding collect_matches_def
  by (simp add: map_of_fold_match_map_add count_list_0_iff)

lemma map_of_cand_map_add:
  "map_of (cand_map_add m (i, c)) j =
     (if j = i
      then Some ((case map_of m i of None \<Rightarrow> [] | Some v \<Rightarrow> v) @ [if 2 < c then 0 else 1])
      else map_of m j)"
  by (induction m "(i, c)" rule: cand_map_add.induct) auto

lemma keys_cand_map_add:
  "map fst (cand_map_add m kv) =
     (if fst kv \<in> set (map fst m) then map fst m else map fst m @ [fst kv])"
  by (induction m kv rule: cand_map_add.induct) auto

lemma map_of_fold_cand_map_add:
  "distinct (map fst mm) \<Longrightarrow>
   map_of (fold (\<lambda>kv m. cand_map_add m kv) mm cm) j =
     (case map_of mm j of
        None \<Rightarrow> map_of cm j
      | Some c \<Rightarrow> Some ((case map_of cm j of None \<Rightarrow> [] | Some v \<Rightarrow> v)
                         @ [if 2 < c then 0 else 1]))"
proof (induction mm arbitrary: cm)
  case Nil
  then show ?case by simp
next
  case (Cons kv mm)
  obtain i c where kv: "kv = (i, c)" by (cases kv)
  have d: "distinct (map fst mm)" and ni: "i \<notin> fst ` set mm" using Cons.prems kv by auto
  have none: "map_of mm i = None" using ni by (simp add: map_of_eq_None_iff)
  have step: "map_of (fold (\<lambda>kv m. cand_map_add m kv) (kv # mm) cm) j =
     (case map_of mm j of
        None \<Rightarrow> map_of (cand_map_add cm (i, c)) j
      | Some c' \<Rightarrow> Some ((case map_of (cand_map_add cm (i, c)) j of None \<Rightarrow> [] | Some v \<Rightarrow> v)
                         @ [if 2 < c' then 0 else 1]))"
    using Cons.IH[OF d, of "cand_map_add cm (i, c)"] by (simp add: kv)
  show ?case
  proof (cases "j = i")
    case True
    then show ?thesis unfolding step using none by (simp add: kv map_of_cand_map_add)
  next
    case False
    then show ?thesis unfolding step by (simp add: kv map_of_cand_map_add split: option.splits)
  qed
qed

lemma nonempty_cand_map_add:
  "\<forall>kv\<in>set m. snd kv \<noteq> [] \<Longrightarrow> \<forall>kv\<in>set (cand_map_add m e). snd kv \<noteq> []"
  by (induction m e rule: cand_map_add.induct) auto

lemma nonempty_fold_match_map:
  "\<forall>kv\<in>set cm. snd kv \<noteq> [] \<Longrightarrow> \<forall>kv\<in>set (fold_match_map mm cm). snd kv \<noteq> []"
  unfolding fold_match_map_def
proof (induction mm arbitrary: cm)
  case Nil
  then show ?case by simp
next
  case (Cons a mm)
  show ?case using Cons.IH[OF nonempty_cand_map_add[OF Cons.prems]] by simp
qed

lemma distinct_fold_match_map:
  "distinct (map fst cm) \<Longrightarrow> distinct (map fst (fold_match_map mm cm))"
  unfolding fold_match_map_def
  by (induction mm arbitrary: cm) (simp_all add: keys_cand_map_add)

lemma search_buckets_invariant:
  "search_buckets idx query bs cm = Some (Inr cm') \<Longrightarrow>
   distinct (map fst cm) \<Longrightarrow> \<forall>kv\<in>set cm. snd kv \<noteq> [] \<Longrightarrow>
   distinct (map fst cm') \<and> (\<forall>kv\<in>set cm'. snd kv \<noteq> [])"
proof (induction bs arbitrary: cm)
  case Nil
  then show ?case by simp
next
  case (Cons b bs)
  from Cons.prems(1) obtain ids where
    ids: "odv_search (m_odv_indexes idx ! b) (drop (m_bucket_begs idx ! b) query) = Some (Inr ids)"
    and rest: "search_buckets idx query bs (fold_match_map (collect_matches ids) cm) = Some (Inr cm')"
    by (auto split: option.splits sum.splits)
  show ?case
    using Cons.IH[OF rest] distinct_fold_match_map[OF Cons.prems(2)]
      nonempty_fold_match_map[OF Cons.prems(3)] by blast
qed

lemma scenario_candidates:
  "search_buckets scenario_index [0, 0, 0, 0] [0..<2] []
     = Some (Inr [(0, [1, 1]), (2, [1, 1]), (3, [1])])"
  by (simp add: upt_rec scenario_index_def scenario_odv_0_search scenario_odv_1_search
      collect_matches_def fold_match_map_def u32_def)

lemma scenario_search_1: "hm_search scenario_index [0, 0, 0, 0] 1 = Some (Inr [])"
proof -
  have b: "m_buckets scenario_index = 2" by (simp add: scenario_index_def)
  have g: "get_proper_buckets 1 = 2" by (simp add: get_proper_buckets_def u32_def)
  show ?thesis
    unfolding hm_search_def b g scenario_candidates
    by (simp add: emits_def reaches_verification_def filtered_def)
qed

lemma scenario_distances:
  "hammina_dist scenario_index [0, 0] 2 0 = 0" "hammina_dist scenario_index [0, 0] 2 2 = 1"
  by (simp_all add: hammina_dist_def scenario_index_def upt_rec u32_def bits_cnt.simps)

lemma scenario_search_2: "hm_search scenario_index [0, 0, 0, 0] 2 = Some (Inr [0, 2])"
proof -
  have b: "m_buckets scenario_index = 2" by (simp add: scenario_index_def)
  have g: "get_proper_buckets 2 = 2" by (simp add: get_proper_buckets_def u32_def)
  have l: "m_vertical_levels scenario_index = 2" "m_hm_length scenario_index = 4"
    by (simp_all add: scenario_index_def)
  have vq: "map (make_vertical_code [0, 0, 0, 0] 4) [0..<2] = [0, 0]"
    by (simp add: make_vertical_code_def upt_rec)
  show ?thesis
    unfolding hm_search_def b g scenario_candidates l vq
    by (simp add: emits_def reaches_verification_def filtered_def scenario_distances)
qed

lemma unary_build: "hm_build [[0, 0]] 2 1 1 = Some (Inr unary_index)"
  by (simp add: odv_build_eval hm_build_def plan_buckets_def bucket_width_def
      build_vertical_keys_def make_vertical_code_def unary_index_def)

lemma map_of_fold_match_map:
  "map_of (fold_match_map (collect_matches ids) cand_map) i =
     (if i \<in> set ids
      then Some ((case map_of cand_map i of None \<Rightarrow> [] | Some v \<Rightarrow> v)
                 @ [if 2 < u32 (count_list ids i) then 0 else 1])
      else map_of cand_map i)"
  unfolding fold_match_map_def
  by (simp add: map_of_fold_cand_map_add[OF distinct_collect_matches] map_of_collect_matches)

lemma bucket_codes_Nil: "bucket_codes idx query [] i = []"
  by (simp add: bucket_codes_def)

lemma bucket_codes_Cons:
  "bucket_codes idx query (b # bs) i =
     (if i \<in> set (bucket_ids idx query b)
      then [if 2 < u32 (count_list (bucket_ids idx query b) i) then 0 else 1]
      else []) @ bucket_codes idx query bs i"
  by (simp add: bucket_codes_def)

lemma search_buckets_step:
  assumes "search_buckets idx query (b # bs) cm = Some (Inr cm')"
  shows "odv_search (m_odv_indexes idx ! b) (drop (m_bucket_begs idx ! b) query)
           = Some (Inr (bucket_ids idx query b)) \<and>
         search_buckets idx query bs
           (fold_match_map (collect_matches (bucket_ids idx query b)) cm) = Some (Inr cm')"
  using assms by (auto simp: bucket_ids_def split: option.splits sum.splits)

lemma search_buckets_fold:
  "search_buckets idx query bs cm = Some (Inr cm') \<Longrightarrow>
   cm' = fold (\<lambda>b. fold_match_map (collect_matches (bucket_ids idx query b))) bs cm"
proof (induction bs arbitrary: cm)
  case Nil
  then show ?case by simp
next
  case (Cons b bs)
  from Cons.IH[OF search_buckets_step[OF Cons.prems, THEN conjunct2]] show ?case by simp
qed

lemma search_buckets_codes:
  "search_buckets idx query bs cm = Some (Inr cm') \<Longrightarrow>
   map_of cm' j =
     (case map_of cm j of
        None \<Rightarrow> if bucket_codes idx query bs j = [] then None
                 else Some (bucket_codes idx query bs j)
      | Some v \<Rightarrow> Some (v @ bucket_codes idx query bs j))"
proof (induction bs arbitrary: cm)
  case Nil
  then show ?case by (simp add: bucket_codes_Nil split: option.splits)
next
  case (Cons b bs)
  note IH = Cons.IH[OF search_buckets_step[OF Cons.prems, THEN conjunct2]]
  show ?case
    unfolding IH map_of_fold_match_map bucket_codes_Cons
    by (simp split: option.splits)
qed

lemma candidates_of_search:
  assumes "search_buckets idx query bs [] = Some (Inr cm)"
  shows "distinct (map fst cm)"
    and "map_of cm j = (if bucket_codes idx query bs j = [] then None
                        else Some (bucket_codes idx query bs j))"
    and "(j, v) \<in> set cm \<longleftrightarrow> v = bucket_codes idx query bs j \<and> v \<noteq> []"
proof -
  show d: "distinct (map fst cm)" using search_buckets_invariant[OF assms] by simp
  show m: "map_of cm j = (if bucket_codes idx query bs j = [] then None
                        else Some (bucket_codes idx query bs j))"
    using search_buckets_codes[OF assms, of j] by simp
  have "(j, v) \<in> set cm \<longleftrightarrow> map_of cm j = Some v" using d by simp
  then show "(j, v) \<in> set cm \<longleftrightarrow> v = bucket_codes idx query bs j \<and> v \<noteq> []"
    unfolding m by auto
qed

lemma three_signature_search: "odv_search three_signature_odv [0, 0, 0] = Some (Inr [0, 0, 0])"
  by (simp add: odv_search_eval three_signature_odv_def)

lemma triple_candidates:
  "search_buckets triple_index [0, 0, 0] [0..<1] [] = Some (Inr [(0, [0])])"
  using three_signature_search
  by (simp add: upt_rec triple_index_def collect_matches_def fold_match_map_def u32_def)

lemma triple_search: "hm_search triple_index [0, 0, 0] 0 = Some (Inr [0])"
proof -
  have b: "m_buckets triple_index = 1" by (simp add: triple_index_def)
  have g: "get_proper_buckets 0 = 1" by (simp add: get_proper_buckets_def u32_def)
  have l: "m_vertical_levels triple_index = 2" "m_hm_length triple_index = 3"
    by (simp_all add: triple_index_def)
  have vq: "map (make_vertical_code [0, 0, 0] 3) [0..<2] = [0, 0]"
    by (simp add: make_vertical_code_def upt_rec)
  have d: "hammina_dist triple_index [0, 0] 0 0 = 0"
    by (simp add: hammina_dist_def triple_index_def upt_rec u32_def bits_cnt.simps)
  show ?thesis
    unfolding hm_search_def b g triple_candidates l vq
    by (simp add: emits_def reaches_verification_def filtered_def d)
qed

lemma triple_build: "hm_build [[0, 0, 0]] 3 2 1 = Some (Inr triple_index)"
  by (simp add: odv_build_eval hm_build_def plan_buckets_def bucket_width_def
      build_vertical_keys_def make_vertical_code_def triple_index_def three_signature_odv_def)

lemma search_buckets_reports:
  "search_buckets idx query bs cm = Some (Inr cm') \<Longrightarrow>
   \<forall>b\<in>set bs. odv_search (m_odv_indexes idx ! b) (drop (m_bucket_begs idx ! b) query)
                  = Some (Inr (bucket_ids idx query b))"
proof (induction bs arbitrary: cm)
  case Nil
  then show ?case by simp
next
  case (Cons b bs)
  note s = search_buckets_step[OF Cons.prems]
  show ?case using s Cons.IH[OF s[THEN conjunct2]] by simp
qed

subsection \<open>Search results\<close>

text \<open>
  Claim C1 (soundness of search) fails on the code. On the first scenario of the
  specification (keys \<open>0000\<close>, \<open>1111\<close>, \<open>1000\<close>, \<open>0111\<close>, range 1, hence two buckets of
  width 2, query \<open>0000\<close>) the search emits no id, although keys 0 and 2 are at Hamming
  distances 0 and 1 of the query: a bucket of width 2 that matches exactly is hit twice,
  and a count of 2 is folded as 1, so both candidates are filtered.
\<close>

theorem search_misses_scenario_1:
  "hm_build scenario_keys 4 2 (get_proper_buckets 1) = Some (Inr scenario_index) \<and>
   hm_search scenario_index [0, 0, 0, 0] 1 = Some (Inr []) \<and>
   compute_hamming_distance (scenario_keys ! 0) [0, 0, 0, 0] 4 1 = 0 \<and>
   compute_hamming_distance (scenario_keys ! 2) [0, 0, 0, 0] 4 1 = 1"
proof -
  have g: "get_proper_buckets 1 = 2" by (simp add: get_proper_buckets_def u32_def)
  have d: "compute_hamming_distance (scenario_keys ! 0) [0, 0, 0, 0] 4 1 = 0"
    "compute_hamming_distance (scenario_keys ! 2) [0, 0, 0, 0] 4 1 = 1"
    by (simp_all add: compute_hamming_distance_def scenario_keys_def upt_rec)
  show ?thesis unfolding g using scenario_build scenario_search_1 d by simp
qed


text \<open>
  Claim C10 (no id is emitted twice). Whatever the index holds, the ids that a call of
  \<open>search\<close> hands to the sink are pairwise distinct.
\<close>

theorem search_emits_each_id_once:
  assumes "hm_search idx query hamming_range = Some (Inr out)"
  shows "distinct out"
proof -
  from assms obtain cm where
    cm: "search_buckets idx query [0..<m_buckets idx] [] = Some (Inr cm)"
    and out: "out = map fst (filter (emits idx
                (map (make_vertical_code query (m_hm_length idx)) [0..<m_vertical_levels idx])
                hamming_range) cm)"
    by (auto simp: hm_search_def split: if_splits option.splits sum.splits)
  have "distinct (map fst cm)" using search_buckets_invariant[OF cm] by simp
  then show ?thesis unfolding out by (rule distinct_map_filter)
qed

text \<open>Witness for C10: the second scenario.\<close>

theorem search_emits_each_id_once_witness:
  "hm_search scenario_index [0, 0, 0, 0] 2 = Some (Inr [0, 2]) \<and> distinct [0, 2 :: nat]"
  using scenario_search_2 search_emits_each_id_once [OF scenario_search_2] by (rule conjI)

text \<open>
  Claim C2 (candidate fold and enhanced filter). Folding the matches of one bucket appends
  to the list of every reported id the value 0 when the id was reported more than twice
  and 1 otherwise, and leaves the other lists alone. The candidate map that a search holds
  after its loop over the buckets is that fold, applied bucket after bucket to the ids
  that the bucket's table reports, starting from the empty map: it has one entry for every
  id that some bucket reports, and the list of an id is \<open>bucket_codes\<close>, one entry per
  bucket that reports it; no list is empty. A non-empty list is filtered, for an even
  range, exactly when it is the single entry 1, and for an odd range exactly when it has
  fewer than three entries and is a single entry or \<open>[1, 1]\<close>. The ids that a search
  verifies and emits are those of the candidates that are not filtered and whose verified
  distance is within the range.
\<close>

theorem candidate_fold_and_filter:
  "map_of (fold_match_map (collect_matches ids) cand_map) i =
     (if i \<in> set ids
      then Some ((case map_of cand_map i of None \<Rightarrow> [] | Some v \<Rightarrow> v)
                 @ [if 2 < u32 (count_list ids i) then 0 else 1])
      else map_of cand_map i) \<and>
   filtered hamming_range (x # xs) =
     (if even hamming_range then length (x # xs) < 2 \<and> x = 1
      else length (x # xs) < 3 \<and> (length (x # xs) = 1 \<or> x # xs = [1, 1])) \<and>
   (hm_search idx query hamming_range = Some (Inr out) \<longrightarrow>
      (\<exists>cm. search_buckets idx query [0..<m_buckets idx] [] = Some (Inr cm) \<and>
            (\<forall>kv\<in>set cm. snd kv \<noteq> []) \<and>
            out = map fst (filter (\<lambda>kv. \<not> filtered hamming_range (snd kv) \<and>
                      hammina_dist idx
                        (map (make_vertical_code query (m_hm_length idx))
                           [0..<m_vertical_levels idx])
                        hamming_range (fst kv) \<le> hamming_range) cm) \<and>
            cm = fold (\<lambda>b. fold_match_map (collect_matches (bucket_ids idx query b)))
                   [0..<m_buckets idx] [] \<and>
            distinct (map fst cm) \<and>
            (\<forall>j v. (j, v) \<in> set cm \<longleftrightarrow>
                     v = bucket_codes idx query [0..<m_buckets idx] j \<and> v \<noteq> [])) \<and>
      (\<forall>b<m_buckets idx.
          odv_search (m_odv_indexes idx ! b) (drop (m_bucket_begs idx ! b) query)
            = Some (Inr (bucket_ids idx query b))) \<and>
      (\<forall>j. j \<in> set out \<longleftrightarrow>
             bucket_codes idx query [0..<m_buckets idx] j \<noteq> [] \<and>
             \<not> filtered hamming_range (bucket_codes idx query [0..<m_buckets idx] j) \<and>
             hammina_dist idx
               (map (make_vertical_code query (m_hm_length idx)) [0..<m_vertical_levels idx])
               hamming_range j \<le> hamming_range))"
proof (intro conjI impI)
  show "map_of (fold_match_map (collect_matches ids) cand_map) i =
     (if i \<in> set ids
      then Some ((case map_of cand_map i of None \<Rightarrow> [] | Some v \<Rightarrow> v)
                 @ [if 2 < u32 (count_list ids i) then 0 else 1])
      else map_of cand_map i)"
    by (rule map_of_fold_match_map)
next
  show "filtered hamming_range (x # xs) =
     (if even hamming_range then length (x # xs) < 2 \<and> x = 1
      else length (x # xs) < 3 \<and> (length (x # xs) = 1 \<or> x # xs = [1, 1]))"
  proof (cases xs)
    case Nil
    then show ?thesis by (auto simp: filtered_def even_iff_mod_2_eq_zero)
  next
    case (Cons y ys)
    then show ?thesis by (cases ys) (auto simp: filtered_def even_iff_mod_2_eq_zero)
  qed
next
  assume a: "hm_search idx query hamming_range = Some (Inr out)"
  then obtain cm where
    cm: "search_buckets idx query [0..<m_buckets idx] [] = Some (Inr cm)"
    and out: "out = map fst (filter (emits idx
                (map (make_vertical_code query (m_hm_length idx)) [0..<m_vertical_levels idx])
                hamming_range) cm)"
    by (auto simp: hm_search_def split: if_splits option.splits sum.splits)
  have ne: "\<forall>kv\<in>set cm. snd kv \<noteq> []" using search_buckets_invariant[OF cm] by simp
  have out': "out = map fst (filter (\<lambda>kv. \<not> filtered hamming_range (snd kv) \<and>
                      hammina_dist idx
                        (map (make_vertical_code query (m_hm_length idx))
                           [0..<m_vertical_levels idx])
                        hamming_range (fst kv) \<le> hamming_range) cm)"
    using out unfolding emits_def reaches_verification_def .
  note f = search_buckets_fold[OF cm]
  note d = candidates_of_search(1)[OF cm]
  have c: "\<forall>j v. (j, v) \<in> set cm \<longleftrightarrow>
                     v = bucket_codes idx query [0..<m_buckets idx] j \<and> v \<noteq> []"
    using candidates_of_search(3)[OF cm] by blast
  show "\<exists>cm. search_buckets idx query [0..<m_buckets idx] [] = Some (Inr cm) \<and>
            (\<forall>kv\<in>set cm. snd kv \<noteq> []) \<and>
            out = map fst (filter (\<lambda>kv. \<not> filtered hamming_range (snd kv) \<and>
                      hammina_dist idx
                        (map (make_vertical_code query (m_hm_length idx))
                           [0..<m_vertical_levels idx])
                        hamming_range (fst kv) \<le> hamming_range) cm) \<and>
            cm = fold (\<lambda>b. fold_match_map (collect_matches (bucket_ids idx query b)))
                   [0..<m_buckets idx] [] \<and>
            distinct (map fst cm) \<and>
            (\<forall>j v. (j, v) \<in> set cm \<longleftrightarrow>
                     v = bucket_codes idx query [0..<m_buckets idx] j \<and> v \<noteq> [])"
    by (rule exI[of _ cm]) (intro conjI cm ne out' f d c)
  show "\<forall>b<m_buckets idx.
          odv_search (m_odv_indexes idx ! b) (drop (m_bucket_begs idx ! b) query)
            = Some (Inr (bucket_ids idx query b))"
    using search_buckets_reports[OF cm] by simp
  show "\<forall>j. j \<in> set out \<longleftrightarrow>
             bucket_codes idx query [0..<m_buckets idx] j \<noteq> [] \<and>
             \<not> filtered hamming_range (bucket_codes idx query [0..<m_buckets idx] j) \<and>
             hammina_dist idx
               (map (make_vertical_code query (m_hm_length idx)) [0..<m_vertical_levels idx])
               hamming_range j \<le> hamming_range"
  proof
    fix j
    let ?vq = "map (make_vertical_code query (m_hm_length idx)) [0..<m_vertical_levels idx]"
    let ?c = "bucket_codes idx query [0..<m_buckets idx] j"
    have "j \<in> set out \<longleftrightarrow>
            (\<exists>v. (j, v) \<in> set cm \<and> \<not> filtered hamming_range v \<and>
                 hammina_dist idx ?vq hamming_range j \<le> hamming_range)"
      unfolding out' by force
    also have "\<dots> \<longleftrightarrow> ?c \<noteq> [] \<and> \<not> filtered hamming_range ?c \<and>
                 hammina_dist idx ?vq hamming_range j \<le> hamming_range"
      using c by auto
    finally show "j \<in> set out \<longleftrightarrow> ?c \<noteq> [] \<and> \<not> filtered hamming_range ?c \<and>
                 hammina_dist idx ?vq hamming_range j \<le> hamming_range" .
  qed
qed

text \<open>Witness for C2: the second scenario, and the single key \<open>[0, 0, 0]\<close> searched with
  range 0, whose only bucket reports the key three times.\<close>

theorem candidate_fold_and_filter_witness:
  "hm_search scenario_index [0, 0, 0, 0] 2 = Some (Inr [0, 2]) \<and>
   map_of (fold_match_map (collect_matches [0, 2, 0, 3]) []) 0 = Some [1] \<and>
   filtered 2 [1] \<and>
   (\<exists>cm. search_buckets scenario_index [0, 0, 0, 0] [0..<m_buckets scenario_index] []
            = Some (Inr cm) \<and>
         (\<forall>kv\<in>set cm. snd kv \<noteq> []) \<and>
         [0, 2] = map fst (filter (\<lambda>kv. \<not> filtered 2 (snd kv) \<and>
                      hammina_dist scenario_index
                        (map (make_vertical_code [0, 0, 0, 0] (m_hm_length scenario_index))
                           [0..<m_vertical_levels scenario_index])
                        2 (fst kv) \<le> 2) cm)) \<and>
   bucket_codes scenario_index [0, 0, 0, 0] [0..<m_buckets scenario_index] 0 = [1, 1] \<and>
   bucket_codes scenario_index [0, 0, 0, 0] [0..<m_buckets scenario_index] 3 = [1] \<and>
   hm_search triple_index [0, 0, 0] 0 = Some (Inr [0]) \<and>
   map_of (fold_match_map (collect_matches [0, 0, 0]) []) 0 = Some [0] \<and>
   filtered 0 [0] = False \<and>
   bucket_ids triple_index [0, 0, 0] 0 = [0, 0, 0] \<and>
   bucket_codes triple_index [0, 0, 0] [0..<m_buckets triple_index] 0 = [0]"
proof -
  note t = candidate_fold_and_filter [where ids = "[0, 2, 0, 3]" and cand_map = "[]" and i = 0
      and hamming_range = 2 and x = 1 and xs = "[]" and idx = scenario_index
      and query = "[0, 0, 0, 0]" and out = "[0, 2]"]
  have a: "map_of (fold_match_map (collect_matches [0, 2, 0, 3]) []) 0 = Some [1]"
    using t [THEN conjunct1] by (simp add: u32_def)
  have b: "filtered 2 [1]" using t [THEN conjunct2, THEN conjunct1] by simp
  note c = t [THEN conjunct2, THEN conjunct2, THEN mp, OF scenario_search_2]
  have mb: "m_buckets scenario_index = 2" by (simp add: scenario_index_def)
  from c [THEN conjunct1] obtain cm where
    h: "search_buckets scenario_index [0, 0, 0, 0] [0..<m_buckets scenario_index] []
           = Some (Inr cm) \<and>
        (\<forall>kv\<in>set cm. snd kv \<noteq> []) \<and>
        [0, 2] = map fst (filter (\<lambda>kv. \<not> filtered 2 (snd kv) \<and>
                      hammina_dist scenario_index
                        (map (make_vertical_code [0, 0, 0, 0] (m_hm_length scenario_index))
                           [0..<m_vertical_levels scenario_index])
                        2 (fst kv) \<le> 2) cm) \<and>
        cm = fold (\<lambda>b. fold_match_map (collect_matches (bucket_ids scenario_index [0, 0, 0, 0] b)))
               [0..<m_buckets scenario_index] [] \<and>
        distinct (map fst cm) \<and>
        (\<forall>j v. (j, v) \<in> set cm \<longleftrightarrow>
               v = bucket_codes scenario_index [0, 0, 0, 0] [0..<m_buckets scenario_index] j
               \<and> v \<noteq> [])" ..
  note cm = h [THEN conjunct1]
  note ne = h [THEN conjunct2, THEN conjunct1]
  note out = h [THEN conjunct2, THEN conjunct2, THEN conjunct1]
  note ch = h [THEN conjunct2, THEN conjunct2, THEN conjunct2, THEN conjunct2, THEN conjunct2,
      rule_format]
  have cm_eq: "cm = [(0, [1, 1]), (2, [1, 1]), (3, [1])]"
    using cm scenario_candidates unfolding mb by simp
  have c': "\<exists>cm. search_buckets scenario_index [0, 0, 0, 0] [0..<m_buckets scenario_index] []
            = Some (Inr cm) \<and>
         (\<forall>kv\<in>set cm. snd kv \<noteq> []) \<and>
         [0, 2] = map fst (filter (\<lambda>kv. \<not> filtered 2 (snd kv) \<and>
                      hammina_dist scenario_index
                        (map (make_vertical_code [0, 0, 0, 0] (m_hm_length scenario_index))
                           [0..<m_vertical_levels scenario_index])
                        2 (fst kv) \<le> 2) cm)"
    by (rule exI [of _ cm]) (intro conjI cm ne out)
  have "(0, [1, 1]) \<in> set cm" unfolding cm_eq by simp
  then have s0: "bucket_codes scenario_index [0, 0, 0, 0] [0..<m_buckets scenario_index] 0 = [1, 1]"
    using ch [of 0 "[1, 1]"] by simp
  have "(3, [1]) \<in> set cm" unfolding cm_eq by simp
  then have s3: "bucket_codes scenario_index [0, 0, 0, 0] [0..<m_buckets scenario_index] 3 = [1]"
    using ch [of 3 "[1]"] by simp
  note u = candidate_fold_and_filter [where ids = "[0, 0, 0]" and cand_map = "[]" and i = 0
      and hamming_range = 0 and x = 0 and xs = "[]" and idx = triple_index
      and query = "[0, 0, 0]" and out = "[0]"]
  have d: "map_of (fold_match_map (collect_matches [0, 0, 0]) []) 0 = Some [0]"
    using u [THEN conjunct1] by (simp add: u32_def)
  have e: "filtered 0 [0] = False" using u [THEN conjunct2, THEN conjunct1] by simp
  note f = u [THEN conjunct2, THEN conjunct2, THEN mp, OF triple_search]
  have tb: "m_buckets triple_index = 1" by (simp add: triple_index_def)
  from f [THEN conjunct1] obtain cm' where
    h': "search_buckets triple_index [0, 0, 0] [0..<m_buckets triple_index] []
           = Some (Inr cm') \<and>
        (\<forall>kv\<in>set cm'. snd kv \<noteq> []) \<and>
        [0] = map fst (filter (\<lambda>kv. \<not> filtered 0 (snd kv) \<and>
                      hammina_dist triple_index
                        (map (make_vertical_code [0, 0, 0] (m_hm_length triple_index))
                           [0..<m_vertical_levels triple_index])
                        0 (fst kv) \<le> 0) cm') \<and>
        cm' = fold (\<lambda>b. fold_match_map (collect_matches (bucket_ids triple_index [0, 0, 0] b)))
               [0..<m_buckets triple_index] [] \<and>
        distinct (map fst cm') \<and>
        (\<forall>j v. (j, v) \<in> set cm' \<longleftrightarrow>
               v = bucket_codes triple_index [0, 0, 0] [0..<m_buckets triple_index] j
               \<and> v \<noteq> [])" ..
  note cm' = h' [THEN conjunct1]
  note ch' = h' [THEN conjunct2, THEN conjunct2, THEN conjunct2, THEN conjunct2, THEN conjunct2,
      rule_format]
  have cm'_eq: "cm' = [(0, [0])]"
    using cm' triple_candidates unfolding tb by simp
  have "(0, [0]) \<in> set cm'" unfolding cm'_eq by simp
  then have t0: "bucket_codes triple_index [0, 0, 0] [0..<m_buckets triple_index] 0 = [0]"
    using ch' [of 0 "[0]"] by simp
  have r: "\<forall>b<m_buckets triple_index.
          odv_search (m_odv_indexes triple_index ! b) (drop (m_bucket_begs triple_index ! b) [0, 0, 0])
            = Some (Inr (bucket_ids triple_index [0, 0, 0] b))"
    by (rule f [THEN conjunct2, THEN conjunct1])
  have "0 < m_buckets triple_index" unfolding tb by simp
  from r [rule_format, OF this]
  have "odv_search three_signature_odv [0, 0, 0]
          = Some (Inr (bucket_ids triple_index [0, 0, 0] 0))"
    by (simp add: triple_index_def)
  then have ti: "bucket_ids triple_index [0, 0, 0] 0 = [0, 0, 0]"
    unfolding three_signature_search by simp
  show ?thesis
    by (intro conjI scenario_search_2 a b c' s0 s3 triple_search d e ti t0)
qed

subsection \<open>Errors of \<open>build\<close>\<close>

lemma collect_positions_error:
  "collect_positions len a key i js m = Inl e \<Longrightarrow> e = InvalidAlphabet"
  by (induction js arbitrary: m) (auto split: if_splits)

lemma collect_keys_error:
  "collect_keys len a keys i m = Inl e \<Longrightarrow> e = InvalidAlphabet"
  by (induction keys arbitrary: i m) (auto split: sum.splits dest: collect_positions_error)

lemma insert_all_error:
  "insert_all idx sig_beg kvs = Some (Inl e) \<Longrightarrow> e = ModuloByZero"
  by (induction idx sig_beg kvs rule: insert_all.induct) (auto split: if_splits option.splits)

lemma odv_build_error:
  "odv_build keys len a = Some (Inl e) \<Longrightarrow>
     (e = AlphabetTooLarge \<and> a = UINT32_MAX) \<or>
     (a \<noteq> UINT32_MAX \<and> (e = InvalidAlphabet \<or> e = TooManySignatures \<or> e = ModuloByZero))"
  by (auto simp: odv_build_def split: if_splits sum.splits
      dest: collect_keys_error insert_all_error)

lemma build_buckets_error:
  "build_buckets keys begs a bs = Some (Inl e) \<Longrightarrow>
     (e = AlphabetTooLarge \<and> a = UINT32_MAX) \<or>
     (a \<noteq> UINT32_MAX \<and> (e = InvalidAlphabet \<or> e = TooManySignatures \<or> e = ModuloByZero))"
proof (induction bs)
  case Nil
  then show ?case by simp
next
  case (Cons b bs)
  then show ?case
    by (auto split: option.splits sum.splits dest!: odv_build_error)
qed

lemma odv_build_uint32_max: "odv_build keys len UINT32_MAX = Some (Inl AlphabetTooLarge)"
  by (simp add: odv_build_def)

lemma build_buckets_uint32_max:
  "bs \<noteq> [] \<Longrightarrow> build_buckets keys begs UINT32_MAX bs = Some (Inl AlphabetTooLarge)"
  by (cases bs) (simp_all add: odv_build_uint32_max)

text \<open>
  Claim C5 (alphabet too large), as amended. With a supported length and at least one
  bucket, \<open>build\<close> ends with \<open>AlphabetTooLarge\<close> exactly when the alphabet size is
  \<open>UINT32_MAX\<close>; no index is produced then. Alphabet sizes 0 and 1 are not rejected by
  that check.
\<close>

theorem build_alphabet_too_large:
  assumes "len \<le> 64" and "1 \<le> buckets"
  shows "(hm_build keys len alphabet_size buckets = Some (Inl AlphabetTooLarge))
           = (alphabet_size = UINT32_MAX)"
proof
  assume "hm_build keys len alphabet_size buckets = Some (Inl AlphabetTooLarge)"
  then have "build_buckets keys (plan_buckets len buckets) alphabet_size [0..<buckets]
               = Some (Inl AlphabetTooLarge)"
    using assms(1) by (auto simp: hm_build_def split: if_splits option.splits sum.splits)
  then show "alphabet_size = UINT32_MAX" by (auto dest: build_buckets_error)
next
  assume a: "alphabet_size = UINT32_MAX"
  have "[0..<buckets] \<noteq> []" using assms(2) by simp
  then show "hm_build keys len alphabet_size buckets = Some (Inl AlphabetTooLarge)"
    using assms(1) unfolding a hm_build_def by (simp add: build_buckets_uint32_max)
qed

text \<open>Witness for C5.\<close>

theorem build_alphabet_too_large_witness:
  "(2::nat) \<le> 64 \<and> (1::nat) \<le> 1 \<and>
   hm_build [[0, 0]] 2 UINT32_MAX 1 = Some (Inl AlphabetTooLarge)"
proof -
  have h: "(2::nat) \<le> 64" "(1::nat) \<le> 1" by simp_all
  show ?thesis using build_alphabet_too_large [OF h, of "[[0, 0]]" UINT32_MAX] h by simp
qed

text \<open>
  Counterexample to C5 as stated: with alphabet size 1 the key \<open>[0, 0]\<close> is indexed, and
  with alphabet size 0 the same key is rejected as \<open>InvalidAlphabet\<close>.
\<close>

theorem small_alphabet_is_not_too_large:
  "hm_build [[0, 0]] 2 1 1 = Some (Inr unary_index) \<and>
   hm_build [[0, 0]] 2 0 1 = Some (Inl InvalidAlphabet)"
proof -
  have "hm_build [[0, 0]] 2 0 1 = Some (Inl InvalidAlphabet)"
    by (simp add: hm_build_def plan_buckets_def bucket_width_def odv_build_def upt_rec
        UINT32_MAX_def u32_def)
  then show ?thesis using unary_build by simp
qed

subsection \<open>The table size\<close>

lemma bit_length_le: "n < 2 ^ k \<Longrightarrow> bit_length n \<le> k"
proof (induction k arbitrary: n)
  case 0
  then show ?case by (simp add: bit_length.simps)
next
  case (Suc k)
  show ?case
  proof (cases "n = 0")
    case True
    then show ?thesis by (simp add: bit_length.simps)
  next
    case False
    have "n div 2 < 2 ^ k" using Suc.prems by simp
    then have "bit_length (n div 2) \<le> k" by (rule Suc.IH)
    then show ?thesis using False by (subst bit_length.simps) simp
  qed
qed

lemma bit_length_pos: "0 < n \<Longrightarrow> 0 < bit_length n"
  by (subst bit_length.simps) simp

lemma bit_length_lower: "0 < n \<Longrightarrow> 2 ^ (bit_length n - 1) \<le> n"
proof (induction n rule: bit_length.induct)
  case (1 n)
  show ?case
  proof (cases "n div 2 = 0")
    case True
    then have "n = 1" using "1.prems" by (simp add: div_eq_0_iff) 
    then show ?thesis by (simp add: bit_length.simps)
  next
    case False
    then have pos: "0 < n div 2" by simp
    have ih: "2 ^ (bit_length (n div 2) - 1) \<le> n div 2" using "1.IH" "1.prems" pos by simp
    have bl: "bit_length n = Suc (bit_length (n div 2))" using "1.prems" by (subst bit_length.simps) simp
    have "bit_length (n div 2) = Suc (bit_length (n div 2) - 1)" using bit_length_pos[OF pos] by simp
    then have "(2::nat) ^ (bit_length n - 1) = 2 * 2 ^ (bit_length (n div 2) - 1)"
      unfolding bl by (metis diff_Suc_1 power_Suc)
    also have "\<dots> \<le> 2 * (n div 2)" using ih by simp
    also have "\<dots> \<le> n" by simp
    finally show ?thesis .
  qed
qed

lemma f32_round_id: "n < 16777216 \<Longrightarrow> f32_round n = n"
proof -
  assume "n < 16777216"
  then have "n < 2 ^ 24" by simp
  then have "bit_length n \<le> 24" by (rule bit_length_le)
  then show ?thesis by (simp add: f32_round_def)
qed

lemma f32_round_lower: "n \<le> f32_round n + n div 16777216"
proof (cases "bit_length n \<le> 24")
  case True
  then show ?thesis by (simp add: f32_round_def)
next
  case False
  define k where "k = bit_length n - 24"
  define q where "q = n div 2 ^ k"
  define rest where "rest = n mod 2 ^ k"
  have k: "0 < k" "bit_length n - 1 = (k - 1) + 24" using False by (simp_all add: k_def)
  have n: "n = q * 2 ^ k + rest"
    unfolding q_def rest_def using div_mult_mod_eq[of n "2 ^ k"] by presburger
  have npos: "0 < n" using False by (cases "n = 0") (simp_all add: bit_length.simps)
  have "(2::nat) ^ (k - 1) * 16777216 = 2 ^ (bit_length n - 1)"
    unfolding k(2) by (simp add: power_add)
  also have "\<dots> \<le> n" using bit_length_lower[OF npos] .
  finally have half: "(2::nat) ^ (k - 1) \<le> n div 16777216"
    by (simp add: less_eq_div_iff_mult_less_eq)
  have r: "f32_round n = (if 2 ^ (k - 1) < rest \<or> (rest = 2 ^ (k - 1) \<and> odd q) then q + 1 else q) * 2 ^ k"
    using False by (simp add: f32_round_def Let_def k_def q_def rest_def)
  show ?thesis
  proof (cases "2 ^ (k - 1) < rest \<or> (rest = 2 ^ (k - 1) \<and> odd q)")
    case up: True
    have "rest < 2 ^ k" by (simp add: rest_def)
    then have "n \<le> (q + 1) * 2 ^ k" using n by simp
    then show ?thesis using up r by simp
  next
    case down: False
    then have "rest \<le> 2 ^ (k - 1)" by auto
    then have "rest \<le> n div 16777216" using half by simp
    moreover have "f32_round n = q * 2 ^ k" using down r by simp
    ultimately show ?thesis using n by simp
  qed
qed

lemma f32_round_scaled: "16777215 * n \<le> 16777216 * f32_round n"
proof -
  have "16777216 * (n div 16777216) \<le> n" by simp
  then show ?thesis using f32_round_lower[of n] by linarith
qed

lemma scaled_table_size_exact: "n \<le> 5592405 \<Longrightarrow> scaled_table_size n = 3 * n div 2"
  by (simp add: scaled_table_size_def f32_round_id)

lemma scaled_table_size_gt:
  assumes "2 \<le> n"
  shows "n < scaled_table_size n"
proof (cases "n = 2")
  case True
  then show ?thesis by (simp add: scaled_table_size_exact)
next
  case False
  then have n: "3 \<le> n" using assms by simp
  define f where "f = f32_round n"
  define g where "g = f32_round (3 * f)"
  have 1: "16777215 * n \<le> 16777216 * f" unfolding f_def by (rule f32_round_scaled)
  have 2: "16777215 * (3 * f) \<le> 16777216 * g" unfolding g_def by (rule f32_round_scaled)
  have "2 * n + 2 \<le> g" using 1 2 n by linarith
  then show ?thesis unfolding scaled_table_size_def f_def[symmetric] g_def[symmetric] by linarith
qed

lemma scaled_table_size_ge: "n \<le> scaled_table_size n"
proof (cases "2 \<le> n")
  case True
  then show ?thesis using scaled_table_size_gt[of n] by simp
next
  case False
  then have "n = 0 \<or> n = 1" by linarith
  then show ?thesis by (auto simp: scaled_table_size_exact)
qed

subsection \<open>The signature map and the insertion loop\<close>

lemma keys_signature_map_add:
  "map fst (signature_map_add m s i) =
     (if s \<in> set (map fst m) then map fst m else map fst m @ [s])"
  by (induction m s i rule: signature_map_add.induct) auto

lemma collect_positions_keys:
  "collect_positions len a key i js m = Inr m' \<Longrightarrow>
   set (map fst m') = set (map fst m) \<union> make_signature len a key ` set js \<and>
   (distinct (map fst m) \<longrightarrow> distinct (map fst m'))"
proof (induction js arbitrary: m)
  case Nil
  then show ?case by simp
next
  case (Cons j js)
  from Cons.prems have
    "collect_positions len a key i js (signature_map_add m (make_signature len a key j) i) = Inr m'"
    by (simp split: if_splits)
  from Cons.IH[OF this] show ?case by (auto simp: keys_signature_map_add split: if_splits)
qed

lemma collect_keys_keys:
  "collect_keys len a keys i m = Inr m' \<Longrightarrow>
   set (map fst m') = set (map fst m) \<union> set (all_signatures keys len a) \<and>
   (distinct (map fst m) \<longrightarrow> distinct (map fst m'))"
proof (induction keys arbitrary: i m)
  case Nil
  then show ?case by (simp add: all_signatures_def)
next
  case (Cons key keys)
  from Cons.prems obtain m1 where
    1: "collect_positions len a key i [0..<len] m = Inr m1"
    and 2: "collect_keys len a keys (Suc i) m1 = Inr m'"
    by (auto split: sum.splits)
  from collect_positions_keys[OF 1] Cons.IH[OF 2] show ?case
    by (auto simp: all_signatures_def)
qed

lemma signature_map_size:
  assumes "collect_keys len a keys 0 [] = Inr sm"
  shows "length sm = distinct_signatures keys len a"
proof -
  from collect_keys_keys[OF assms] have
    s: "set (map fst sm) = set (all_signatures keys len a)" and d: "distinct (map fst sm)"
    by simp_all
  have "length sm = length (map fst sm)" by simp
  also have "\<dots> = card (set (map fst sm))" using distinct_card[OF d] by simp
  also have "\<dots> = length (remdups (all_signatures keys len a))"
    unfolding s by (simp add: length_remdups_card_conv)
  finally show ?thesis by (simp add: distinct_signatures_def)
qed

lemma next_pos_mod: "pos < n \<Longrightarrow> next_pos n pos = (pos + 1) mod n"
  by (auto simp: next_pos_def)

lemma next_pos_less: "pos < n \<Longrightarrow> next_pos n pos < n"
  by (auto simp: next_pos_def)

lemma vacancy_reached:
  fixes n pos p :: nat
  assumes "pos < n" "p < n"
  shows "\<exists>k. (pos + k) mod n = p"
proof (cases "pos \<le> p")
  case True
  then have "(pos + (p - pos)) mod n = p" using assms by simp
  then show ?thesis ..
next
  case False
  then have "pos + (p + n - pos) = p + n" using assms by simp
  then have "(pos + (p + n - pos)) mod n = p" using assms by simp
  then show ?thesis ..
qed

lemma insert_probe_steps:
  "pos < length (m_table idx) \<Longrightarrow>
   sig_pos (m_table idx ! ((pos + k) mod length (m_table idx))) = UINT32_MAX \<Longrightarrow>
   \<exists>p < length (m_table idx). sig_pos (m_table idx ! p) = UINT32_MAX \<and>
     insert_probe idx sig_beg sig ids pos
       = Some (store_signature idx sig_beg sig ids p, sig_beg + m_length idx)"
proof (induction k arbitrary: pos)
  case 0
  then have "sig_pos (m_table idx ! pos) = UINT32_MAX" by simp
  then show ?case using "0.prems"(1) by (subst insert_probe.simps) auto
next
  case (Suc k)
  show ?case
  proof (cases "sig_pos (m_table idx ! pos) = UINT32_MAX")
    case True
    then show ?thesis using Suc.prems(1) by (subst insert_probe.simps) auto
  next
    case False
    let ?n = "length (m_table idx)"
    have lt: "next_pos ?n pos < ?n" using Suc.prems(1) by (rule next_pos_less)
    have "(next_pos ?n pos + k) mod ?n = (pos + Suc k) mod ?n"
      unfolding next_pos_mod[OF Suc.prems(1)] by (simp add: mod_add_left_eq)
    then have "sig_pos (m_table idx ! ((next_pos ?n pos + k) mod ?n)) = UINT32_MAX"
      using Suc.prems(2) by simp
    from Suc.IH[OF lt this] show ?thesis using False by (subst insert_probe.simps) simp
  qed
qed

lemma insert_probe_total:
  assumes "pos < length (m_table idx)"
    and "\<exists>p < length (m_table idx). sig_pos (m_table idx ! p) = UINT32_MAX"
  shows "\<exists>p < length (m_table idx). sig_pos (m_table idx ! p) = UINT32_MAX \<and>
     insert_probe idx sig_beg sig ids pos
       = Some (store_signature idx sig_beg sig ids p, sig_beg + m_length idx)"
proof -
  from assms(2) obtain p where p: "p < length (m_table idx)" "sig_pos (m_table idx ! p) = UINT32_MAX"
    by blast
  from vacancy_reached[OF assms(1) p(1)] obtain k where "(pos + k) mod length (m_table idx) = p" ..
  then show ?thesis using insert_probe_steps[OF assms(1), of k] p(2) by simp
qed

lemma occupied_vacancy:
  assumes "occupied tbl < length tbl"
  shows "\<exists>p < length tbl. sig_pos (tbl ! p) = UINT32_MAX"
proof (rule ccontr)
  assume "\<not> ?thesis"
  then have "\<forall>e\<in>set tbl. sig_pos e \<noteq> UINT32_MAX" by (auto simp: in_set_conv_nth)
  then have "filter (\<lambda>e. sig_pos e \<noteq> UINT32_MAX) tbl = tbl" by (simp add: filter_id_conv)
  then show False using assms by (simp add: occupied_def)
qed

lemma occupied_update:
  assumes "p < length tbl" "sig_pos (tbl ! p) = UINT32_MAX" "sig_pos e \<noteq> UINT32_MAX"
  shows "occupied (tbl[p := e]) = Suc (occupied tbl)"
proof -
  have 1: "tbl[p := e] = take p tbl @ e # drop (Suc p) tbl"
    using assms(1) by (rule upd_conv_take_nth_drop)
  have 2: "tbl = take p tbl @ tbl ! p # drop (Suc p) tbl"
    using assms(1) by (rule id_take_nth_drop)
  have "occupied tbl = occupied (take p tbl) + occupied (drop (Suc p) tbl)"
    by (subst 2) (simp add: occupied_def assms(2))
  moreover have "occupied (tbl[p := e]) = occupied (take p tbl) + 1 + occupied (drop (Suc p) tbl)"
    unfolding 1 by (simp add: occupied_def assms(3))
  ultimately show ?thesis by simp
qed

lemma store_signature_fields:
  "length (m_table (store_signature idx sig_beg sig ids p)) = length (m_table idx)"
  "m_length (store_signature idx sig_beg sig ids p) = m_length idx"
  "m_del_marker (store_signature idx sig_beg sig ids p) = m_del_marker idx"
  "m_table (store_signature idx sig_beg sig ids p) = (m_table idx)[p :=
      \<lparr>sig_pos = u32 (sig_beg div m_length idx), id_beg = u32 (length (m_ids idx)),
       id_end = u32 (length (m_ids idx) + length ids)\<rparr>]"
  by (simp_all add: store_signature_def)

lemma insert_all_total:
  assumes "occupied (m_table idx) + length kvs \<le> length (m_table idx)"
    and "sig_beg div m_length idx + length kvs \<le> UINT32_MAX"
    and "kvs \<noteq> [] \<longrightarrow> 0 < m_length idx"
  shows "\<exists>idx'. insert_all idx sig_beg kvs = Some (Inr idx') \<and>
           length (m_table idx') = length (m_table idx) \<and>
           occupied (m_table idx') = occupied (m_table idx) + length kvs \<and>
           m_length idx' = m_length idx \<and> m_del_marker idx' = m_del_marker idx"
  using assms
proof (induction kvs arbitrary: idx sig_beg)
  case Nil
  then show ?case by simp
next
  case (Cons kv kvs)
  obtain sig ids where kv: "kv = (sig, ids)" by (cases kv)
  let ?n = "length (m_table idx)"
  let ?pos = "unat (fnv1a_hash sig) mod ?n"
  have "occupied (m_table idx) + Suc (length kvs) \<le> ?n" using Cons.prems(1) by simp
  then have n: "0 < ?n" and occ: "occupied (m_table idx) < ?n" by linarith+
  have len: "0 < m_length idx" using Cons.prems(3) by simp
  have pos: "?pos < ?n" using n by simp
  from insert_probe_total[OF pos occupied_vacancy[OF occ], of sig_beg sig ids]
  obtain p where p: "p < ?n" "sig_pos (m_table idx ! p) = UINT32_MAX"
    and ins: "insert_probe idx sig_beg sig ids ?pos
                = Some (store_signature idx sig_beg sig ids p, sig_beg + m_length idx)"
    by blast
  let ?idx1 = "store_signature idx sig_beg sig ids p"
  have small: "sig_beg div m_length idx < UINT32_MAX" using Cons.prems(2) by simp
  then have stored: "u32 (sig_beg div m_length idx) \<noteq> UINT32_MAX"
    by (simp add: u32_def UINT32_MAX_def)
  have occ1: "occupied (m_table ?idx1) = Suc (occupied (m_table idx))"
    unfolding store_signature_fields by (rule occupied_update[OF p]) (simp add: stored)
  have a1: "occupied (m_table ?idx1) + length kvs \<le> length (m_table ?idx1)"
    using Cons.prems(1) occ1 by (simp add: store_signature_fields)
  have "(sig_beg + m_length idx) div m_length idx = Suc (sig_beg div m_length idx)"
    using len div_add_self2[of "m_length idx" sig_beg] by linarith
  then have a2: "(sig_beg + m_length idx) div m_length ?idx1 + length kvs \<le> UINT32_MAX"
    using Cons.prems(2) by (simp add: store_signature_fields)
  have a3: "kvs \<noteq> [] \<longrightarrow> 0 < m_length ?idx1" using len by (simp add: store_signature_fields)
  from Cons.IH[OF a1 a2 a3] obtain idx' where
    r: "insert_all ?idx1 (sig_beg + m_length idx) kvs = Some (Inr idx')"
    and f: "length (m_table idx') = length (m_table ?idx1)"
      "occupied (m_table idx') = occupied (m_table ?idx1) + length kvs"
      "m_length idx' = m_length ?idx1" "m_del_marker idx' = m_del_marker ?idx1"
    by blast
  have "insert_all idx sig_beg (kv # kvs) = Some (Inr idx')"
    using n ins r by (simp add: kv)
  then show ?case using f occ1 by (simp add: store_signature_fields)
qed

lemma collect_keys_zero_length: "collect_keys 0 a keys i m = Inr m"
  by (induction keys arbitrary: i) simp_all

lemma odv_allocate_fields:
  "m_table (odv_allocate n len a) = replicate (scaled_table_size n) vacant"
  "m_length (odv_allocate n len a) = len"
  "m_del_marker (odv_allocate n len a) = a"
  "occupied (m_table (odv_allocate n len a)) = 0"
  by (simp_all add: odv_allocate_def occupied_def vacant_def)

lemma odv_build_success:
  assumes "a \<noteq> UINT32_MAX" and "collect_keys len a keys 0 [] = Inr sm"
    and "length sm \<le> UINT32_MAX"
  shows "\<exists>idx. odv_build keys len a = Some (Inr idx) \<and>
           insert_all (odv_allocate (length sm) len a) 0 sm = Some (Inr idx) \<and>
           length (m_table idx) = scaled_table_size (length sm) \<and>
           occupied (m_table idx) = length sm \<and>
           m_length idx = len \<and> m_del_marker idx = a"
proof -
  let ?idx0 = "odv_allocate (length sm) len a"
  have "occupied (m_table ?idx0) = 0" by (rule odv_allocate_fields(4))
  moreover have "length (m_table ?idx0) = scaled_table_size (length sm)"
    by (simp add: odv_allocate_fields(1))
  ultimately have a1: "occupied (m_table ?idx0) + length sm \<le> length (m_table ?idx0)"
    using scaled_table_size_ge[of "length sm"] by simp
  have a2: "0 div m_length ?idx0 + length sm \<le> UINT32_MAX" using assms(3) by simp
  have a3: "sm \<noteq> [] \<longrightarrow> 0 < m_length ?idx0"
  proof (cases "len = 0")
    case True
    then have "sm = []" using assms(2) by (simp add: collect_keys_zero_length)
    then show ?thesis by simp
  next
    case False
    then show ?thesis by (simp add: odv_allocate_fields)
  qed
  from insert_all_total[OF a1 a2 a3] obtain idx where
    r: "insert_all ?idx0 0 sm = Some (Inr idx)" "length (m_table idx) = length (m_table ?idx0)"
    "occupied (m_table idx) = occupied (m_table ?idx0) + length sm"
    "m_length idx = m_length ?idx0" "m_del_marker idx = m_del_marker ?idx0"
    by blast
  have "odv_build keys len a = Some (Inr idx)"
    using assms r(1) by (simp add: odv_build_def)
  moreover have "length (m_table idx) = scaled_table_size (length sm)"
    using r(2) by (simp add: odv_allocate_fields(1))
  moreover have "occupied (m_table idx) = length sm"
    using r(3) unfolding odv_allocate_fields(4) by simp
  moreover have "m_length idx = len" "m_del_marker idx = a"
    using r(4,5) by (simp_all add: odv_allocate_fields)
  ultimately show ?thesis using r(1) by blast
qed

lemma odv_build_returns: "\<exists>r. odv_build keys len a = Some r"
proof (cases "a = UINT32_MAX")
  case True
  then show ?thesis by (simp add: odv_build_def)
next
  case False
  show ?thesis
  proof (cases "collect_keys len a keys 0 []")
    case (Inl e)
    then show ?thesis using False by (simp add: odv_build_def)
  next
    case (Inr sm)
    show ?thesis
    proof (cases "length sm \<le> UINT32_MAX")
      case True
      from odv_build_success[OF False Inr True] show ?thesis by blast
    next
      case big: False
      then show ?thesis using False Inr by (simp add: odv_build_def)
    qed
  qed
qed

lemma build_buckets_returns: "\<exists>r. build_buckets keys begs a bs = Some r"
proof (induction bs)
  case Nil
  then show ?case by simp
next
  case (Cons b bs)
  obtain r1 where r1: "odv_build (map (drop (begs ! b)) keys) (bucket_width begs b) a = Some r1"
    using odv_build_returns by blast
  obtain r2 where r2: "build_buckets keys begs a bs = Some r2" using Cons.IH by blast
  show ?case by (cases r1; cases r2) (simp_all add: r1 r2)
qed

lemma hm_build_returns: "\<exists>r. hm_build keys len a buckets = Some r"
proof -
  obtain r where "build_buckets keys (plan_buckets len buckets) a [0..<buckets] = Some r"
    using build_buckets_returns by blast
  then show ?thesis by (cases r) (simp_all add: hm_build_def)
qed

lemma odv_build_table:
  assumes "odv_build keys len a = Some (Inr idx)"
  shows "\<exists>sm. collect_keys len a keys 0 [] = Inr sm \<and>
           length sm = distinct_signatures keys len a \<and>
           insert_all (odv_allocate (length sm) len a) 0 sm = Some (Inr idx) \<and>
           length (m_table idx) = scaled_table_size (length sm) \<and>
           occupied (m_table idx) = length sm \<and>
           m_length idx = len \<and> m_del_marker idx = a"
proof -
  from assms have a: "a \<noteq> UINT32_MAX" by (auto simp: odv_build_def split: if_splits)
  from assms a obtain sm where sm: "collect_keys len a keys 0 [] = Inr sm"
    by (auto simp: odv_build_def split: sum.splits)
  from assms a sm have le: "length sm \<le> UINT32_MAX"
    by (auto simp: odv_build_def split: if_splits)
  from odv_build_success[OF a sm le] assms signature_map_size[OF sm] sm show ?thesis by auto
qed

subsection \<open>More concrete inputs\<close>

lemma three_signature_build: "odv_build [[0, 0, 0]] 3 2 = Some (Inr three_signature_odv)"
  by (simp add: odv_build_eval three_signature_odv_def)

lemma three_signature_count: "distinct_signatures [[0, 0, 0]] 3 2 = 3"
  by (simp add: distinct_signatures_def all_signatures_def make_signature_def upt_rec)

lemma empty_build: "hm_build [] 2 2 1 = Some (Inr empty_index)"
  by (simp add: odv_build_eval hm_build_def plan_buckets_def bucket_width_def
      build_vertical_keys_def empty_index_def)

subsection \<open>The allocated table\<close>

text \<open>
  Claim C4 (table capacity), as amended. A table build that succeeds allocates
  \<open>scaled_table_size U\<close> slots, all vacant, for the \<open>U\<close> distinct signatures of the bucket,
  and the table keeps that many slots; \<open>scaled_table_size U\<close> is the single-precision
  product \<open>U * 1.5\<close> truncated, which is \<open>3 * U div 2\<close> (the floor of \<open>1.5 U\<close>) as long as
  \<open>U \<le> 5592405\<close>.
\<close>

theorem table_size_is_truncated_product:
  assumes "odv_build keys len alphabet_size = Some (Inr idx)"
  shows "(\<exists>signature_map.
            collect_keys len alphabet_size keys 0 [] = Inr signature_map \<and>
            length signature_map = distinct_signatures keys len alphabet_size \<and>
            insert_all (odv_allocate (length signature_map) len alphabet_size) 0 signature_map
              = Some (Inr idx)) \<and>
         m_table (odv_allocate (distinct_signatures keys len alphabet_size) len alphabet_size)
           = replicate (scaled_table_size (distinct_signatures keys len alphabet_size)) vacant \<and>
         length (m_table idx) = scaled_table_size (distinct_signatures keys len alphabet_size) \<and>
         (distinct_signatures keys len alphabet_size \<le> 5592405 \<longrightarrow>
            length (m_table idx) = 3 * distinct_signatures keys len alphabet_size div 2)"
proof -
  from odv_build_table[OF assms] obtain sm where
    sm: "collect_keys len alphabet_size keys 0 [] = Inr sm"
      "length sm = distinct_signatures keys len alphabet_size"
      "insert_all (odv_allocate (length sm) len alphabet_size) 0 sm = Some (Inr idx)"
      "length (m_table idx) = scaled_table_size (length sm)"
    by blast
  have "\<exists>signature_map.
            collect_keys len alphabet_size keys 0 [] = Inr signature_map \<and>
            length signature_map = distinct_signatures keys len alphabet_size \<and>
            insert_all (odv_allocate (length signature_map) len alphabet_size) 0 signature_map
              = Some (Inr idx)"
    using sm(1,2,3) by blast
  moreover have "length (m_table idx)
      = scaled_table_size (distinct_signatures keys len alphabet_size)"
    using sm(2,4) by simp
  moreover have "distinct_signatures keys len alphabet_size \<le> 5592405 \<longrightarrow>
            length (m_table idx) = 3 * distinct_signatures keys len alphabet_size div 2"
    using sm(2,4) by (simp add: scaled_table_size_exact)
  ultimately show ?thesis by (simp add: odv_allocate_fields(1))
qed

text \<open>Witness for C4: the three signatures of the key slice \<open>[0, 0, 0]\<close>.\<close>

theorem table_size_is_truncated_product_witness:
  "odv_build [[0, 0, 0]] 3 2 = Some (Inr three_signature_odv) \<and>
   distinct_signatures [[0, 0, 0]] 3 2 = 3 \<and>
   m_table (odv_allocate 3 3 2) = replicate (scaled_table_size 3) vacant \<and>
   length (m_table three_signature_odv) = scaled_table_size 3 \<and>
   length (m_table three_signature_odv) = 3 * 3 div 2"
  using table_size_is_truncated_product [OF three_signature_build] three_signature_build
  by (simp add: three_signature_count)

text \<open>
  Counterexample to C4 as stated: for the three signatures of the key slice \<open>[0, 0, 0]\<close> the
  table has 4 slots, not the ceiling 5 of \<open>3 * 1.5\<close>.
\<close>

theorem table_size_is_not_the_ceiling:
  "odv_build [[0, 0, 0]] 3 2 = Some (Inr three_signature_odv) \<and>
   distinct_signatures [[0, 0, 0]] 3 2 = 3 \<and>
   length (m_table three_signature_odv) = 4 \<and>
   length (m_table three_signature_odv) \<noteq> (3 * distinct_signatures [[0, 0, 0]] 3 2 + 1) div 2"
  using three_signature_build
  by (simp add: three_signature_count) (simp add: three_signature_odv_def)

subsection \<open>The modulus of the probe\<close>

lemma build_buckets_nth:
  "build_buckets keys begs a bs = Some (Inr odvs) \<Longrightarrow>
   length odvs = length bs \<and>
   (\<forall>k<length bs. odv_build (map (drop (begs ! (bs ! k))) keys) (bucket_width begs (bs ! k)) a
                      = Some (Inr (odvs ! k)))"
proof (induction bs arbitrary: odvs)
  case Nil
  then show ?case by simp
next
  case (Cons b bs)
  from Cons.prems obtain odv rest where
    1: "odv_build (map (drop (begs ! b)) keys) (bucket_width begs b) a = Some (Inr odv)"
    and 2: "build_buckets keys begs a bs = Some (Inr rest)"
    and 3: "odvs = odv # rest"
    by (auto split: option.splits sum.splits)
  from Cons.IH[OF 2] 1 show ?case unfolding 3 by (auto simp: nth_Cons split: nat.splits)
qed

lemma hm_build_bucket:
  assumes "hm_build keys len a buckets = Some (Inr idx)" and "b < buckets"
  shows "odv_build (map (drop (plan_buckets len buckets ! b)) keys)
           (bucket_width (plan_buckets len buckets) b) a = Some (Inr (m_odv_indexes idx ! b))"
    and "length (m_odv_indexes idx) = buckets"
proof -
  note bb = build_buckets_nth[OF hm_build_fields(8)[OF assms(1)]]
  show "length (m_odv_indexes idx) = buckets" using bb by simp
  show "odv_build (map (drop (plan_buckets len buckets ! b)) keys)
           (bucket_width (plan_buckets len buckets) b) a = Some (Inr (m_odv_indexes idx ! b))"
    using bb assms(2) by simp
qed

lemma signature_map_nonempty:
  assumes "collect_keys len a keys 0 [] = Inr sm" and "keys \<noteq> []" and "0 < len"
  shows "0 < length sm"
proof -
  obtain key rest where k: "keys = key # rest" using assms(2) by (cases keys) auto
  have "make_signature len a key 0 \<in> set (all_signatures keys len a)"
    using assms(3) by (auto simp: all_signatures_def k)
  then have "set (map fst sm) \<noteq> {}" using collect_keys_keys[OF assms(1)] by auto
  then show ?thesis by auto
qed

lemma built_table_nonempty:
  assumes "odv_build keys len a = Some (Inr idx)" and "keys \<noteq> []" and "0 < len"
  shows "0 < length (m_table idx)"
proof -
  from odv_build_table[OF assms(1)] obtain sm where
    sm: "collect_keys len a keys 0 [] = Inr sm"
    and t: "length (m_table idx) = scaled_table_size (length sm)"
    by blast
  have "0 < length sm" using signature_map_nonempty[OF sm assms(2,3)] .
  then show ?thesis unfolding t using scaled_table_size_ge[of "length sm"] by linarith
qed

lemma odv_search_positions_error:
  "odv_search_positions idx key js = Some (Inl e) \<Longrightarrow>
     e = ModuloByZero \<and> length (m_table idx) = 0"
  by (induction js) (auto split: if_splits option.splits sum.splits)

lemma search_buckets_error:
  "search_buckets idx query bs cm = Some (Inl e) \<Longrightarrow>
     e = ModuloByZero \<and> (\<exists>b\<in>set bs. length (m_table (m_odv_indexes idx ! b)) = 0)"
proof (induction bs arbitrary: cm)
  case Nil
  then show ?case by simp
next
  case (Cons b bs)
  show ?case
  proof (cases "odv_search (m_odv_indexes idx ! b) (drop (m_bucket_begs idx ! b) query)")
    case None
    then show ?thesis using Cons.prems by simp
  next
    case (Some r)
    show ?thesis
    proof (cases r)
      case (Inl e')
      then have "e' = e" using Cons.prems Some by simp
      then show ?thesis
        using odv_search_positions_error[of "m_odv_indexes idx ! b" _ _ e] Some Inl
        by (auto simp: odv_search_def)
    next
      case (Inr ids)
      then have "search_buckets idx query bs (fold_match_map (collect_matches ids) cm) = Some (Inl e)"
        using Cons.prems Some by simp
      from Cons.IH[OF this] show ?thesis by auto
    qed
  qed
qed

lemma hm_search_modulo_error:
  assumes "hm_search idx query r = Some (Inl ModuloByZero)"
  shows "\<exists>b<m_buckets idx. length (m_table (m_odv_indexes idx ! b)) = 0"
proof -
  from assms have "search_buckets idx query [0..<m_buckets idx] [] = Some (Inl ModuloByZero)"
    by (auto simp: hm_search_def split: if_splits option.splits sum.splits)
  from search_buckets_error[OF this] show ?thesis by auto
qed

lemma scaled_table_size_0: "scaled_table_size 0 = 0"
  by (simp add: scaled_table_size_exact)

lemma odv_build_empty:
  "a \<noteq> UINT32_MAX \<Longrightarrow> odv_build [] len a = Some (Inr (odv_allocate 0 len a))"
  by (simp add: odv_build_def)

lemma build_buckets_empty:
  "a \<noteq> UINT32_MAX \<Longrightarrow>
   build_buckets [] begs a bs = Some (Inr (map (\<lambda>b. odv_allocate 0 (bucket_width begs b) a) bs))"
  by (induction bs) (simp_all add: odv_build_empty)

lemma hm_build_empty:
  assumes "len \<le> 64" and "a \<noteq> UINT32_MAX"
  shows "\<exists>idx. hm_build [] len a buckets = Some (Inr idx) \<and>
           m_buckets idx = buckets \<and>
           m_odv_indexes idx
             = map (\<lambda>b. odv_allocate 0 (bucket_width (plan_buckets len buckets) b) a) [0..<buckets]"
  using assms by (simp add: hm_build_def build_buckets_empty)

lemma odv_search_empty_table:
  assumes "m_table idx = []" and "0 < m_length idx"
  shows "odv_search idx key = Some (Inl ModuloByZero)"
proof -
  have "[0..<m_length idx] = 0 # [1..<m_length idx]" using assms(2) by (simp add: upt_rec)
  then show ?thesis using assms(1) by (simp add: odv_search_def)
qed

lemma hm_search_empty_tables:
  assumes "m_buckets idx = get_proper_buckets r" and "0 < m_buckets idx"
    and "m_table (m_odv_indexes idx ! 0) = []" and "0 < m_length (m_odv_indexes idx ! 0)"
  shows "hm_search idx query r = Some (Inl ModuloByZero)"
proof -
  have "[0..<m_buckets idx] = 0 # [1..<m_buckets idx]" using assms(2) by (simp add: upt_rec)
  then have "search_buckets idx query [0..<m_buckets idx] [] = Some (Inl ModuloByZero)"
    using odv_search_empty_table[OF assms(3,4)] by simp
  then show ?thesis using assms(1) by (simp add: hm_search_def)
qed

lemma odv_search_error:
  assumes "odv_search idx key = Some (Inl e)"
  shows "e = ModuloByZero \<and> length (m_table idx) = 0 \<and> 0 < m_length idx"
proof -
  have "e = ModuloByZero \<and> length (m_table idx) = 0"
    using odv_search_positions_error[of idx key "[0..<m_length idx]" e] assms
    by (simp add: odv_search_def)
  moreover have "0 < m_length idx"
  proof (rule ccontr)
    assume "\<not> 0 < m_length idx"
    then have "odv_search idx key = Some (Inr [])" by (simp add: odv_search_def)
    then show False using assms by simp
  qed
  ultimately show ?thesis by simp
qed

lemma search_buckets_probed_error:
  "search_buckets idx query bs cm = Some (Inl e) \<Longrightarrow>
     e = ModuloByZero \<and>
     (\<exists>b\<in>set bs. length (m_table (m_odv_indexes idx ! b)) = 0 \<and>
                  0 < m_length (m_odv_indexes idx ! b))"
proof (induction bs arbitrary: cm)
  case Nil
  then show ?case by simp
next
  case (Cons b bs)
  show ?case
  proof (cases "odv_search (m_odv_indexes idx ! b) (drop (m_bucket_begs idx ! b) query)")
    case None
    then show ?thesis using Cons.prems by simp
  next
    case (Some r)
    show ?thesis
    proof (cases r)
      case (Inl e')
      then have "e' = e" using Cons.prems Some by simp
      then show ?thesis
        using odv_search_error[of "m_odv_indexes idx ! b" _ e] Some Inl by auto
    next
      case (Inr ids)
      then have "search_buckets idx query bs (fold_match_map (collect_matches ids) cm) = Some (Inl e)"
        using Cons.prems Some by simp
      from Cons.IH[OF this] show ?thesis by auto
    qed
  qed
qed

lemma hm_search_probed_modulo_error:
  assumes "hm_search idx query r = Some (Inl ModuloByZero)"
  shows "\<exists>b<m_buckets idx. length (m_table (m_odv_indexes idx ! b)) = 0 \<and>
                            0 < m_length (m_odv_indexes idx ! b)"
proof -
  from assms have "search_buckets idx query [0..<m_buckets idx] [] = Some (Inl ModuloByZero)"
    by (auto simp: hm_search_def split: if_splits option.splits sum.splits)
  from search_buckets_probed_error[OF this] show ?thesis by auto
qed

lemma built_bucket_length:
  assumes "hm_build keys len a buckets = Some (Inr idx)" and "b < buckets"
  shows "m_length (m_odv_indexes idx ! b) = bucket_width (m_bucket_begs idx) b"
  using odv_build_table[OF hm_build_bucket(1)[OF assms]] hm_build_fields(2)[OF assms(1)]
  by auto

lemma built_bucket_table:
  assumes "hm_build keys len a buckets = Some (Inr idx)" and "keys \<noteq> []" and "b < buckets"
    and "0 < m_length (m_odv_indexes idx ! b)"
  shows "0 < length (m_table (m_odv_indexes idx ! b))"
proof -
  note odv = hm_build_bucket(1)[OF assms(1,3)]
  have "m_length (m_odv_indexes idx ! b) = bucket_width (plan_buckets len buckets) b"
    using odv_build_table[OF odv] by blast
  then have w: "0 < bucket_width (plan_buckets len buckets) b" using assms(4) by simp
  show ?thesis using built_table_nonempty[OF odv _ w] assms(2) by simp
qed

lemma built_search_no_modulo_error:
  assumes "hm_build keys len a buckets = Some (Inr idx)" and "keys \<noteq> []"
  shows "hm_search idx query r \<noteq> Some (Inl ModuloByZero)"
proof
  assume "hm_search idx query r = Some (Inl ModuloByZero)"
  from hm_search_probed_modulo_error[OF this] obtain b where
    b: "b < m_buckets idx" "length (m_table (m_odv_indexes idx ! b)) = 0"
      "0 < m_length (m_odv_indexes idx ! b)"
    by blast
  have "b < buckets" using b(1) hm_build_fields(5)[OF assms(1)] by simp
  from built_bucket_table[OF assms this b(3)] b(2) show False by simp
qed

lemma search_buckets_empty_tables:
  assumes "\<forall>b\<in>set bs. m_table (m_odv_indexes idx ! b) = []"
  shows "search_buckets idx query bs cm =
           (if \<exists>b\<in>set bs. 0 < m_length (m_odv_indexes idx ! b)
            then Some (Inl ModuloByZero) else Some (Inr cm))"
  using assms
proof (induction bs arbitrary: cm)
  case Nil
  then show ?case by simp
next
  case (Cons b bs)
  have t: "m_table (m_odv_indexes idx ! b) = []" using Cons.prems by simp
  have IH: "search_buckets idx query bs cm =
           (if \<exists>b\<in>set bs. 0 < m_length (m_odv_indexes idx ! b)
            then Some (Inl ModuloByZero) else Some (Inr cm))" for cm
    using Cons.IH Cons.prems by simp
  show ?case
  proof (cases "m_length (m_odv_indexes idx ! b) = 0")
    case True
    then have "odv_search (m_odv_indexes idx ! b) (drop (m_bucket_begs idx ! b) query)
                 = Some (Inr [])"
      by (simp add: odv_search_def)
    then show ?thesis
      using True IH[of cm] by (simp add: collect_matches_def fold_match_map_def)
  next
    case False
    then have "odv_search (m_odv_indexes idx ! b) (drop (m_bucket_begs idx ! b) query)
                 = Some (Inl ModuloByZero)"
      using odv_search_empty_table[OF t] by simp
    then show ?thesis using False by simp
  qed
qed

lemma empty_index_search:
  assumes "len \<le> 64" and "a \<noteq> UINT32_MAX"
  shows "\<exists>idx0. hm_build [] len a buckets = Some (Inr idx0) \<and>
           (\<forall>b<buckets. m_table (m_odv_indexes idx0 ! b) = []) \<and>
           (get_proper_buckets r = buckets \<longrightarrow>
              hm_search idx0 query r =
                (if \<exists>b<buckets. 0 < bucket_width (plan_buckets len buckets) b
                 then Some (Inl ModuloByZero) else Some (Inr [])))"
proof -
  from hm_build_empty[OF assms, of buckets] obtain idx0 where
    b: "hm_build [] len a buckets = Some (Inr idx0)"
    and mb: "m_buckets idx0 = buckets"
    and odvs: "m_odv_indexes idx0
             = map (\<lambda>b. odv_allocate 0 (bucket_width (plan_buckets len buckets) b) a) [0..<buckets]"
    by blast
  have t: "m_table (m_odv_indexes idx0 ! b) = []" if "b < buckets" for b
    unfolding odvs using that by (simp add: odv_allocate_fields scaled_table_size_0)
  have w: "m_length (m_odv_indexes idx0 ! b) = bucket_width (plan_buckets len buckets) b"
    if "b < buckets" for b
    unfolding odvs using that by (simp add: odv_allocate_fields)
  have e: "(\<exists>b\<in>set [0..<buckets]. 0 < m_length (m_odv_indexes idx0 ! b)) \<longleftrightarrow>
           (\<exists>b<buckets. 0 < bucket_width (plan_buckets len buckets) b)"
    using w by auto
  have sb: "search_buckets idx0 query [0..<buckets] [] =
           (if \<exists>b<buckets. 0 < bucket_width (plan_buckets len buckets) b
            then Some (Inl ModuloByZero) else Some (Inr []))"
    using search_buckets_empty_tables[of "[0..<buckets]" idx0 query "[]"] t
    unfolding e by simp
  have "hm_search idx0 query r =
          (if \<exists>b<buckets. 0 < bucket_width (plan_buckets len buckets) b
           then Some (Inl ModuloByZero) else Some (Inr []))"
    if "get_proper_buckets r = buckets"
    unfolding hm_search_def mb sb using that by simp
  then show ?thesis using b t by blast
qed

lemma narrow_build: "hm_build [[0, 0], [1, 1]] 2 2 3 = Some (Inr narrow_index)"
proof -
  have plan: "plan_buckets 2 3 = [0, 0, 1, 2]"
    by (simp add: plan_buckets_def upt_rec u32_def)
  have upt: "[0..<3] = [0, 1, 2::nat]"
    by (simp add: upt_rec)
  have w: "bucket_width [0, 0, 1, 2] 0 = 0" "bucket_width [0, 0, 1, 2] 1 = 1"
    "bucket_width [0, 0, 1, 2] 2 = 1"
    by (simp_all add: bucket_width_def u32_def)
  have k: "map (drop ([0, 0, 1, 2] ! 0)) [[0, 0], [1, 1]] = [[0, 0], [1, 1 :: nat]]"
    "map (drop ([0, 0, 1, 2] ! 1)) [[0, 0], [1, 1]] = [[0, 0], [1, 1 :: nat]]"
    "map (drop ([0, 0, 1, 2] ! 2)) [[0, 0], [1, 1]] = [[0], [1 :: nat]]"
    by simp_all
  have o0: "odv_build [[0, 0], [1, 1]] 0 2 = Some (Inr (m_odv_indexes narrow_index ! 0))"
    by (simp add: odv_build_eval narrow_index_def)
  have o1: "odv_build [[0, 0], [1, 1]] 1 2 = Some (Inr (m_odv_indexes narrow_index ! 1))"
    unfolding One_nat_def [symmetric] by (simp add: odv_build_eval narrow_index_def)
  have o2: "odv_build [[0], [1]] 1 2 = Some (Inr (m_odv_indexes narrow_index ! 2))"
    unfolding One_nat_def [symmetric] by (simp add: odv_build_eval narrow_index_def)
  have bb: "build_buckets [[0, 0], [1, 1]] [0, 0, 1, 2] 2 [0, 1, 2]
              = Some (Inr [m_odv_indexes narrow_index ! 0, m_odv_indexes narrow_index ! 1,
                           m_odv_indexes narrow_index ! 2])"
    by (simp only: build_buckets.simps k w o0 o1 o2 option.case sum.case)
  have l: "[m_odv_indexes narrow_index ! 0, m_odv_indexes narrow_index ! 1,
            m_odv_indexes narrow_index ! 2] = m_odv_indexes narrow_index"
    by (simp add: narrow_index_def)
  have levels: "bits_hi 2 + 1 = 2"
    by (simp add: bits_hi_def bit_length.simps)
  have v: "build_vertical_keys [[0, 0], [1, 1]] 2 2 = \<lparr>iv_width = 2, iv_data = [0, 0, 3, 0]\<rparr>"
    by (simp add: build_vertical_keys_def make_vertical_code_def upt_rec)
  show ?thesis
    unfolding hm_build_def plan upt bb l levels v by (simp add: narrow_index_def)
qed

lemma narrow_search: "hm_search narrow_index [0, 0] 3 = Some (Inr [])"
proof -
  have b: "m_buckets narrow_index = 3" by (simp add: narrow_index_def)
  have g: "get_proper_buckets 3 = 3" by (simp add: get_proper_buckets_def u32_def)
  have s0: "odv_search (m_odv_indexes narrow_index ! 0) (drop (m_bucket_begs narrow_index ! 0) [0, 0])
              = Some (Inr [])"
    by (simp add: odv_search_def narrow_index_def)
  have s1: "odv_search (m_odv_indexes narrow_index ! 1) (drop (m_bucket_begs narrow_index ! 1) [0, 0])
              = Some (Inr [0, 1])"
    by (simp add: odv_search_eval narrow_index_def)
  have s2: "odv_search (m_odv_indexes narrow_index ! 2) (drop (m_bucket_begs narrow_index ! 2) [0, 0])
              = Some (Inr [0, 1])"
    by (simp add: odv_search_eval narrow_index_def)
  have upt: "[0..<3] = [0, 1, 2::nat]" by (simp add: upt_rec)
  have c: "search_buckets narrow_index [0, 0] [0..<3] [] = Some (Inr [(0, [1, 1]), (1, [1, 1])])"
    unfolding upt
    by (simp only: search_buckets.simps s0 s1 s2 option.case sum.case)
       (simp add: collect_matches_def fold_match_map_def u32_def)
  show ?thesis
    unfolding hm_search_def b g c
    by (simp add: emits_def reaches_verification_def filtered_def)
qed

text \<open>
  Claim C9 (the modulus of the probe), as amended. A probe starts at
  \<open>hash(sig) mod m_table.size()\<close>. In an index built from at least one key, the table of
  every bucket of positive width has at least one slot, so no search meets a modulo by
  zero; with \<open>1 \<le> buckets \<le> length\<close> every bucket has positive width, hence every table
  has a slot. A bucket of width 0 has a table without slots, which is never probed. The
  index built from no key has tables without slots only, and a search with the matching
  range runs into the modulo by zero at its first probe when some bucket has positive
  width (as with \<open>1 \<le> buckets \<le> length\<close>), and makes no probe and emits no id otherwise.
\<close>

theorem probe_modulus_is_table_size:
  "(0 < length (m_table odv) \<longrightarrow>
      odv_search_positions odv key [j] =
        (case search_probe odv (make_signature (m_length odv) (m_del_marker odv) key j)
                (unat (fnv1a_hash (make_signature (m_length odv) (m_del_marker odv) key j))
                   mod length (m_table odv)) of
           None \<Rightarrow> None | Some ids \<Rightarrow> Some (Inr ids))) \<and>
   (hm_build keys len a buckets = Some (Inr idx) \<longrightarrow> keys \<noteq> [] \<longrightarrow>
      1 \<le> buckets \<longrightarrow> buckets \<le> len \<longrightarrow>
      (\<forall>b<buckets. 0 < length (m_table (m_odv_indexes idx ! b))) \<and>
      hm_search idx query r \<noteq> Some (Inl ModuloByZero)) \<and>
   (len \<le> 64 \<longrightarrow> a \<noteq> UINT32_MAX \<longrightarrow> 1 \<le> buckets \<longrightarrow> buckets \<le> len \<longrightarrow>
      (\<exists>idx0. hm_build [] len a buckets = Some (Inr idx0) \<and>
         (\<forall>b<buckets. m_table (m_odv_indexes idx0 ! b) = []) \<and>
         (get_proper_buckets r = buckets \<longrightarrow>
            hm_search idx0 query r = Some (Inl ModuloByZero)))) \<and>
   (hm_build keys len a buckets = Some (Inr idx) \<longrightarrow> keys \<noteq> [] \<longrightarrow>
      (\<forall>b<buckets. m_length (m_odv_indexes idx ! b) = bucket_width (m_bucket_begs idx) b) \<and>
      (\<forall>b<buckets. 0 < m_length (m_odv_indexes idx ! b) \<longrightarrow>
                    0 < length (m_table (m_odv_indexes idx ! b))) \<and>
      hm_search idx query r \<noteq> Some (Inl ModuloByZero)) \<and>
   (len \<le> 64 \<longrightarrow> a \<noteq> UINT32_MAX \<longrightarrow>
      (\<exists>idx0. hm_build [] len a buckets = Some (Inr idx0) \<and>
         (\<forall>b<buckets. m_table (m_odv_indexes idx0 ! b) = []) \<and>
         (get_proper_buckets r = buckets \<longrightarrow>
            hm_search idx0 query r =
              (if \<exists>b<buckets. 0 < bucket_width (plan_buckets len buckets) b
               then Some (Inl ModuloByZero) else Some (Inr [])))))"
proof (intro conjI impI)
  assume "0 < length (m_table odv)"
  then show "odv_search_positions odv key [j] =
        (case search_probe odv (make_signature (m_length odv) (m_del_marker odv) key j)
                (unat (fnv1a_hash (make_signature (m_length odv) (m_del_marker odv) key j))
                   mod length (m_table odv)) of
           None \<Rightarrow> None | Some ids \<Rightarrow> Some (Inr ids))"
    by (simp split: option.splits)
next
  assume b: "hm_build keys len a buckets = Some (Inr idx)" and k: "keys \<noteq> []"
    and B: "1 \<le> buckets" "buckets \<le> len"
  have L: "len \<le> 64" and mb: "m_buckets idx = buckets" using hm_build_fields[OF b] by simp_all
  have pos: "0 < length (m_table (m_odv_indexes idx ! b))" if "b < buckets" for b
  proof -
    have w: "0 < bucket_width (plan_buckets len buckets) b"
      using bucket_width_plan[of buckets len b] width_ge_1[of buckets len b] B L that by simp
    show ?thesis
      using built_table_nonempty[OF hm_build_bucket(1)[OF b that] _ w] k by simp
  qed
  then show "\<forall>b<buckets. 0 < length (m_table (m_odv_indexes idx ! b))" by simp
  show "hm_search idx query r \<noteq> Some (Inl ModuloByZero)"
  proof
    assume "hm_search idx query r = Some (Inl ModuloByZero)"
    from hm_search_modulo_error[OF this] pos show False unfolding mb by auto
  qed
next
  assume L: "len \<le> 64" and a: "a \<noteq> UINT32_MAX" and B: "1 \<le> buckets" "buckets \<le> len"
  from hm_build_empty[OF L a, of buckets] obtain idx0 where
    b: "hm_build [] len a buckets = Some (Inr idx0)"
    and mb: "m_buckets idx0 = buckets"
    and odvs: "m_odv_indexes idx0
             = map (\<lambda>b. odv_allocate 0 (bucket_width (plan_buckets len buckets) b) a) [0..<buckets]"
    by blast
  have t: "m_table (m_odv_indexes idx0 ! b) = []" if "b < buckets" for b
    unfolding odvs using that by (simp add: odv_allocate_fields scaled_table_size_0)
  have w: "0 < m_length (m_odv_indexes idx0 ! 0)"
  proof -
    have "m_length (m_odv_indexes idx0 ! 0) = bucket_width (plan_buckets len buckets) 0"
      unfolding odvs using B by (simp add: odv_allocate_fields)
    then show ?thesis
      using bucket_width_plan[of buckets len 0] width_ge_1[of buckets len 0] B L by simp
  qed
  have "hm_search idx0 query r = Some (Inl ModuloByZero)" if "get_proper_buckets r = buckets"
    using hm_search_empty_tables[of idx0 r query] that mb B t[of 0] w by simp
  then show "\<exists>idx0. hm_build [] len a buckets = Some (Inr idx0) \<and>
         (\<forall>b<buckets. m_table (m_odv_indexes idx0 ! b) = []) \<and>
         (get_proper_buckets r = buckets \<longrightarrow>
            hm_search idx0 query r = Some (Inl ModuloByZero))"
    using b t by blast
next
  assume b: "hm_build keys len a buckets = Some (Inr idx)" and k: "keys \<noteq> []"
  show "\<forall>b<buckets. m_length (m_odv_indexes idx ! b) = bucket_width (m_bucket_begs idx) b"
    using built_bucket_length[OF b] by simp
  show "\<forall>b<buckets. 0 < m_length (m_odv_indexes idx ! b) \<longrightarrow>
                    0 < length (m_table (m_odv_indexes idx ! b))"
    using built_bucket_table[OF b k] by simp
  show "hm_search idx query r \<noteq> Some (Inl ModuloByZero)"
    by (rule built_search_no_modulo_error[OF b k])
next
  assume L: "len \<le> 64" and a: "a \<noteq> UINT32_MAX"
  show "\<exists>idx0. hm_build [] len a buckets = Some (Inr idx0) \<and>
         (\<forall>b<buckets. m_table (m_odv_indexes idx0 ! b) = []) \<and>
         (get_proper_buckets r = buckets \<longrightarrow>
            hm_search idx0 query r =
              (if \<exists>b<buckets. 0 < bucket_width (plan_buckets len buckets) b
               then Some (Inl ModuloByZero) else Some (Inr [])))"
    by (rule empty_index_search[OF L a])
qed

text \<open>Witness for C9: the scenario index, the index of no keys, the index of two keys
  of length 2 with three buckets, whose second and third tables have a slot, and the index
  of no keys of length 0.\<close>

theorem probe_modulus_is_table_size_witness:
  "hm_build scenario_keys 4 2 2 = Some (Inr scenario_index) \<and> scenario_keys \<noteq> [] \<and>
   0 < length (m_table (m_odv_indexes scenario_index ! 0)) \<and>
   0 < length (m_table (m_odv_indexes scenario_index ! 1)) \<and>
   hm_search scenario_index [0, 0, 0, 0] 2 \<noteq> Some (Inl ModuloByZero) \<and>
   hm_build [] 2 2 1 = Some (Inr empty_index) \<and>
   m_table (m_odv_indexes empty_index ! 0) = [] \<and>
   get_proper_buckets 0 = 1 \<and>
   hm_search empty_index [0, 0] 0 = Some (Inl ModuloByZero) \<and>
   hm_build [[0, 0], [1, 1]] 2 2 3 = Some (Inr narrow_index) \<and>
   0 < m_length (m_odv_indexes narrow_index ! 1) \<and>
   0 < length (m_table (m_odv_indexes narrow_index ! 1)) \<and>
   hm_search narrow_index [0, 0] 3 \<noteq> Some (Inl ModuloByZero) \<and>
   (\<exists>idx0. hm_build [] 0 2 1 = Some (Inr idx0) \<and>
           m_table (m_odv_indexes idx0 ! 0) = [] \<and>
           hm_search idx0 [] 0 = Some (Inr []))"
proof -
  note a = probe_modulus_is_table_size [where keys = scenario_keys and len = 4 and a = 2
      and buckets = 2 and idx = scenario_index and query = "[0, 0, 0, 0]" and r = 2,
      THEN conjunct2, THEN conjunct1]
  have k: "scenario_keys \<noteq> []" by (simp add: scenario_keys_def)
  have a': "(\<forall>b<2. 0 < length (m_table (m_odv_indexes scenario_index ! b))) \<and>
      hm_search scenario_index [0, 0, 0, 0] 2 \<noteq> Some (Inl ModuloByZero)"
    using a scenario_build k by simp
  then have a0: "0 < length (m_table (m_odv_indexes scenario_index ! 0))"
    and a1: "0 < length (m_table (m_odv_indexes scenario_index ! 1))"
    and a2: "hm_search scenario_index [0, 0, 0, 0] 2 \<noteq> Some (Inl ModuloByZero)"
    by simp_all
  note b = probe_modulus_is_table_size [where len = 2 and a = 2 and buckets = 1
      and query = "[0, 0]" and r = 0, THEN conjunct2, THEN conjunct2, THEN conjunct1]
  have g: "get_proper_buckets 0 = 1" by (simp add: get_proper_buckets_def u32_def)
  have "\<exists>idx0. hm_build [] 2 2 1 = Some (Inr idx0) \<and>
         (\<forall>b<1. m_table (m_odv_indexes idx0 ! b) = []) \<and>
         (get_proper_buckets 0 = 1 \<longrightarrow> hm_search idx0 [0, 0] 0 = Some (Inl ModuloByZero))"
    using b by (simp add: UINT32_MAX_def)
  then have b0: "m_table (m_odv_indexes empty_index ! 0) = []"
    and b1: "hm_search empty_index [0, 0] 0 = Some (Inl ModuloByZero)"
    using empty_build g by auto
  note c = probe_modulus_is_table_size [where keys = "[[0, 0], [1, 1]]" and len = 2 and a = 2
      and buckets = 3 and idx = narrow_index and query = "[0, 0]" and r = 3,
      THEN conjunct2, THEN conjunct2, THEN conjunct2, THEN conjunct1, THEN mp, THEN mp,
      OF narrow_build]
  have c': "(\<forall>b<3. 0 < m_length (m_odv_indexes narrow_index ! b) \<longrightarrow>
                    0 < length (m_table (m_odv_indexes narrow_index ! b))) \<and>
      hm_search narrow_index [0, 0] 3 \<noteq> Some (Inl ModuloByZero)"
    using c by simp
  have c0: "0 < m_length (m_odv_indexes narrow_index ! 1)" by (simp add: narrow_index_def)
  have c1: "0 < length (m_table (m_odv_indexes narrow_index ! 1))"
    using c' c0 by simp
  have c2: "hm_search narrow_index [0, 0] 3 \<noteq> Some (Inl ModuloByZero)"
    using c' by simp
  note d = probe_modulus_is_table_size [where len = 0 and a = 2 and buckets = 1
      and query = "[]" and r = 0,
      THEN conjunct2, THEN conjunct2, THEN conjunct2, THEN conjunct2]
  have w: "bucket_width (plan_buckets 0 1) 0 = 0"
    by (simp add: plan_buckets_def bucket_width_def upt_rec u32_def)
  have "\<exists>idx0. hm_build [] 0 2 1 = Some (Inr idx0) \<and>
         (\<forall>b<1. m_table (m_odv_indexes idx0 ! b) = []) \<and>
         (get_proper_buckets 0 = 1 \<longrightarrow> hm_search idx0 [] 0 = Some (Inr []))"
    using d w by (simp add: UINT32_MAX_def)
  then have d': "\<exists>idx0. hm_build [] 0 2 1 = Some (Inr idx0) \<and>
          m_table (m_odv_indexes idx0 ! 0) = [] \<and>
          hm_search idx0 [] 0 = Some (Inr [])"
    using g by auto
  show ?thesis
    by (intro conjI scenario_build k a0 a1 a2 empty_build b0 g b1 narrow_build c0 c1 c2 d')
qed

text \<open>
  Claim C9 as worded, for every index built from at least one key, fails when there are
  more buckets than symbols: the keys \<open>[0, 0]\<close> and \<open>[1, 1]\<close> (length 2, alphabet size 2)
  built with the three buckets of range 3 give a first bucket of width 0, whose table has
  no slot. The search makes no probe in that bucket and returns.
\<close>

theorem zero_width_bucket_has_no_slots:
  "hm_build [[0, 0], [1, 1]] 2 2 (get_proper_buckets 3) = Some (Inr narrow_index) \<and>
   get_proper_buckets 3 = 3 \<and>
   bucket_width (m_bucket_begs narrow_index) 0 = 0 \<and>
   length (m_table (m_odv_indexes narrow_index ! 0)) = 0 \<and>
   hm_search narrow_index [0, 0] 3 = Some (Inr [])"
proof -
  have g: "get_proper_buckets 3 = 3" by (simp add: get_proper_buckets_def u32_def)
  have w: "bucket_width (m_bucket_begs narrow_index) 0 = 0"
    by (simp add: narrow_index_def bucket_width_def u32_def)
  have t: "length (m_table (m_odv_indexes narrow_index ! 0)) = 0"
    by (simp add: narrow_index_def)
  show ?thesis
    unfolding g by (intro conjI narrow_build refl w t narrow_search)
qed

subsection \<open>Termination of the probes\<close>

lemma search_probe_steps:
  "pos < length (m_table idx) \<Longrightarrow>
   sig_pos (m_table idx ! ((pos + k) mod length (m_table idx))) = UINT32_MAX \<Longrightarrow>
   \<exists>ids. search_probe idx sig pos = Some ids"
proof (induction k arbitrary: pos)
  case 0
  then have "sig_pos (m_table idx ! pos) = UINT32_MAX" by simp
  then show ?case by (subst search_probe.simps) simp
next
  case (Suc k)
  let ?n = "length (m_table idx)"
  have lt: "next_pos ?n pos < ?n" using Suc.prems(1) by (rule next_pos_less)
  have "(next_pos ?n pos + k) mod ?n = (pos + Suc k) mod ?n"
    unfolding next_pos_mod[OF Suc.prems(1)] by (simp add: mod_add_left_eq)
  then have "sig_pos (m_table idx ! ((next_pos ?n pos + k) mod ?n)) = UINT32_MAX"
    using Suc.prems(2) by simp
  from Suc.IH[OF lt this] show ?case by (subst search_probe.simps) simp
qed

lemma search_probe_total:
  assumes "pos < length (m_table idx)" and "occupied (m_table idx) < length (m_table idx)"
  shows "\<exists>ids. search_probe idx sig pos = Some ids"
proof -
  from occupied_vacancy[OF assms(2)] obtain p where
    p: "p < length (m_table idx)" "sig_pos (m_table idx ! p) = UINT32_MAX" by blast
  from vacancy_reached[OF assms(1) p(1)] obtain k where "(pos + k) mod length (m_table idx) = p" ..
  then show ?thesis using search_probe_steps[OF assms(1), of k] p(2) by simp
qed

lemma odv_search_positions_returns:
  assumes "\<And>j. j \<in> set js \<Longrightarrow> 0 < length (m_table idx) \<Longrightarrow>
              \<exists>ids. search_probe idx (make_signature (m_length idx) (m_del_marker idx) key j)
                (unat (fnv1a_hash (make_signature (m_length idx) (m_del_marker idx) key j))
                   mod length (m_table idx)) = Some ids"
  shows "\<exists>r. odv_search_positions idx key js = Some r"
  using assms
proof (induction js)
  case Nil
  then show ?case by simp
next
  case (Cons j js)
  show ?case
  proof (cases "length (m_table idx) = 0")
    case True
    then show ?thesis by simp
  next
    case False
    then obtain ids where
      1: "search_probe idx (make_signature (m_length idx) (m_del_marker idx) key j)
                (unat (fnv1a_hash (make_signature (m_length idx) (m_del_marker idx) key j))
                   mod length (m_table idx)) = Some ids"
      using Cons.prems[of j] by auto
    obtain r where 2: "odv_search_positions idx key js = Some r"
      using Cons.IH Cons.prems by auto
    show ?thesis using False 1 2 by (cases r) simp_all
  qed
qed

lemma vacancy_search_returns:
  assumes "occupied (m_table idx) < length (m_table idx)"
  shows "\<exists>r. odv_search idx key = Some r"
  unfolding odv_search_def
  by (rule odv_search_positions_returns) (simp add: search_probe_total[OF _ assms])

lemma collect_positions_checked:
  "collect_positions len a key i js m = Inr m' \<Longrightarrow> \<forall>j\<in>set js. key ! j < a"
  by (induction js arbitrary: m) (auto split: if_splits)

lemma collect_keys_checked:
  "collect_keys len a keys i m = Inr m' \<Longrightarrow> \<forall>key\<in>set keys. \<forall>j<len. key ! j < a"
proof (induction keys arbitrary: i m)
  case Nil
  then show ?case by simp
next
  case (Cons key keys)
  from Cons.prems obtain m1 where
    1: "collect_positions len a key i [0..<len] m = Inr m1"
    and 2: "collect_keys len a keys (Suc i) m1 = Inr m'"
    by (auto split: sum.splits)
  from collect_positions_checked[OF 1] Cons.IH[OF 2] show ?case by auto
qed

lemma bit_length_upper: "n < 2 ^ bit_length n"
proof (induction n rule: bit_length.induct)
  case (1 n)
  show ?case
  proof (cases "n = 0")
    case True
    then show ?thesis by simp
  next
    case False
    then have "n div 2 < 2 ^ bit_length (n div 2)" using "1.IH" by simp
    then have "n < 2 * 2 ^ bit_length (n div 2)" by linarith
    then show ?thesis using False by (subst bit_length.simps) simp
  qed
qed

lemma marker_fits: "a mod 2 ^ (bits_hi a + 1) = a"
proof -
  have "bit_length a \<le> bits_hi a + 1" by (simp add: bits_hi_def)
  then have "(2::nat) ^ bit_length a \<le> 2 ^ (bits_hi a + 1)"
    by (rule power_increasing) simp
  then have "a < 2 ^ (bits_hi a + 1)" using bit_length_upper[of a] by linarith
  then show ?thesis by simp
qed

lemma two_signatures:
  assumes "collect_keys len a keys 0 [] = Inr sm" and "keys \<noteq> []" and "2 \<le> len"
    and "\<forall>key\<in>set keys. len \<le> length key"
  shows "2 \<le> length sm"
proof -
  obtain key rest where k: "keys = key # rest" using assms(2) by (cases keys) auto
  let ?s0 = "make_signature len a key 0" and ?s1 = "make_signature len a key 1"
  have l: "len \<le> length key" using assms(4) k by simp
  have "key ! 0 < a" using collect_keys_checked[OF assms(1)] assms(3) k by auto
  moreover have "?s0 ! 0 = a" using l assms(3) by (simp add: make_signature_def)
  moreover have "?s1 ! 0 = key ! 0" using l assms(3) by (simp add: make_signature_def)
  ultimately have ne: "?s0 \<noteq> ?s1" by auto
  have "?s0 \<in> set (all_signatures keys len a)" "?s1 \<in> set (all_signatures keys len a)"
    using assms(3) by (auto simp: all_signatures_def k)
  then have sub: "{?s0, ?s1} \<subseteq> set (map fst sm)" using collect_keys_keys[OF assms(1)] by auto
  have "card {?s0, ?s1} = 2" using ne by simp
  then have "2 \<le> card (set (map fst sm))" using card_mono[OF _ sub] by simp
  also have "\<dots> \<le> length (map fst sm)" by (rule card_length)
  finally show ?thesis by simp
qed

lemma single_signature:
  assumes "collect_keys len a keys 0 [] = Inr sm" and "length sm = 1"
    and "\<forall>key\<in>set keys. len \<le> length key"
  shows "len = 1 \<and> (\<exists>ids. sm = [([a], ids)])"
proof -
  have k: "keys \<noteq> []" using assms(1,2) by auto
  have l0: "len \<noteq> 0"
  proof
    assume "len = 0"
    then have "sm = []" using assms(1) collect_keys_zero_length[of a keys 0 "[]"] by simp
    then show False using assms(2) by simp
  qed
  have "\<not> 2 \<le> len" using two_signatures[OF assms(1) k _ assms(3)] assms(2) by auto
  then have len: "len = 1" using l0 by simp
  obtain s ids where sm: "sm = [(s, ids)]" using assms(2) by (cases sm) auto
  have "s \<in> set (all_signatures keys len a)" using collect_keys_keys[OF assms(1)] sm by auto
  then obtain key where kin: "key \<in> set keys" and sk: "s = make_signature 1 a key 0"
    by (auto simp: all_signatures_def len)
  have "1 \<le> length key" using assms(3) len kin by auto
  then obtain x xs where "key = x # xs" by (cases key) auto
  then have "s = [a]" by (simp add: sk make_signature_def)
  then show ?thesis using len sm by simp
qed

lemma scaled_table_size_1: "scaled_table_size (Suc 0) = Suc 0"
  by (simp add: scaled_table_size_exact)

lemma single_signature_search:
  assumes "insert_all (odv_allocate 1 1 a) 0 [([a], ids)] = Some (Inr odv)" and "1 \<le> length q"
  shows "\<exists>r. odv_search odv q = Some r"
proof -
  let ?alloc = "odv_allocate (Suc 0) (Suc 0) a"
  have t: "m_table ?alloc = [vacant]" by (simp add: odv_allocate_def scaled_table_size_1)
  have "insert_probe ?alloc 0 [a] ids 0 = Some (store_signature ?alloc 0 [a] ids 0, 0 + m_length ?alloc)"
    by (subst insert_probe.simps) (simp add: t vacant_def)
  then have odv: "odv = store_signature ?alloc 0 [a] ids 0"
    using assms(1) by (simp add: t)
  have f: "m_length odv = 1" "m_del_marker odv = a" "length (m_table odv) = 1"
    "sig_pos (m_table odv ! 0) = 0"
    "iv_data (m_signatures odv) = [a]"
    unfolding odv
    by (simp_all add: store_signature_def odv_allocate_def scaled_table_size_1 u32_def
        iv_copy_def iv_new_def marker_fits[simplified])
  obtain x xs where q: "q = x # xs" using assms(2) by (cases q) auto
  have s: "make_signature (Suc 0) a q 0 = [a]" by (simp add: make_signature_def q)
  have "search_probe odv [a] 0 = Some (slot_ids odv 0)"
    by (subst search_probe.simps) (simp add: f slot_matches_def UINT32_MAX_def u32_def)
  then show ?thesis by (simp add: odv_search_def f s)
qed

lemma odv_probe_returns:
  assumes "odv_build keys len a = Some (Inr odv)"
    and "\<forall>key\<in>set keys. len \<le> length key" and "len \<le> length q"
  shows "\<exists>r. odv_search odv q = Some r"
proof -
  from odv_build_table[OF assms(1)] obtain sm where
    sm: "collect_keys len a keys 0 [] = Inr sm"
    and ins: "insert_all (odv_allocate (length sm) len a) 0 sm = Some (Inr odv)"
    and t: "length (m_table odv) = scaled_table_size (length sm)"
    and occ: "occupied (m_table odv) = length sm"
    and ml: "m_length odv = len"
    by blast
  consider "length sm = 0" | "length sm = 1" | "2 \<le> length sm" by linarith
  then show ?thesis
  proof cases
    case 1
    then have "length (m_table odv) = 0" using t by (simp add: scaled_table_size_0)
    then show ?thesis
      unfolding odv_search_def by (cases "[0..<m_length odv]") simp_all
  next
    case 2
    from single_signature[OF sm 2 assms(2)] obtain ids where
      len: "len = 1" and s: "sm = [([a], ids)]" by blast
    show ?thesis
      using single_signature_search[of a ids odv q] ins assms(3) unfolding s len by simp
  next
    case 3
    then have "occupied (m_table odv) < length (m_table odv)"
      unfolding t occ by (rule scaled_table_size_gt)
    then show ?thesis by (rule vacancy_search_returns)
  qed
qed

lemma full_probe_never_returns:
  assumes "search_probe idx sig pos = Some y"
  shows "\<not> ((\<forall>p<length (m_table idx).
               sig_pos (m_table idx ! p) \<noteq> UINT32_MAX \<and> \<not> slot_matches idx sig p) \<and>
            pos < length (m_table idx))"
proof (rule search_probe.raw_induct
    [where P = "\<lambda>idx sig pos y.
        \<not> ((\<forall>p<length (m_table idx).
               sig_pos (m_table idx ! p) \<noteq> UINT32_MAX \<and> \<not> slot_matches idx sig p) \<and>
            pos < length (m_table idx))",
      OF _ assms])
  fix f :: "odv_index \<Rightarrow> nat list \<Rightarrow> nat \<Rightarrow> nat list option" and idx sig pos y
  assume IH: "\<And>idx sig pos y. f idx sig pos = Some y \<Longrightarrow>
        \<not> ((\<forall>p<length (m_table idx).
               sig_pos (m_table idx ! p) \<noteq> UINT32_MAX \<and> \<not> slot_matches idx sig p) \<and>
            pos < length (m_table idx))"
  assume step: "(if sig_pos (m_table idx ! pos) = UINT32_MAX then Some []
      else if slot_matches idx sig pos then Some (slot_ids idx pos)
      else f idx sig (next_pos (length (m_table idx)) pos)) = Some y"
  show "\<not> ((\<forall>p<length (m_table idx).
               sig_pos (m_table idx ! p) \<noteq> UINT32_MAX \<and> \<not> slot_matches idx sig p) \<and>
            pos < length (m_table idx))"
  proof
    assume a: "(\<forall>p<length (m_table idx).
               sig_pos (m_table idx ! p) \<noteq> UINT32_MAX \<and> \<not> slot_matches idx sig p) \<and>
            pos < length (m_table idx)"
    then have "f idx sig (next_pos (length (m_table idx)) pos) = Some y" using step by simp
    moreover have "next_pos (length (m_table idx)) pos < length (m_table idx)"
      using a by (simp add: next_pos_less)
    ultimately show False using IH a by blast
  qed
qed

lemma full_probe_diverges:
  assumes "\<forall>p<length (m_table idx).
             sig_pos (m_table idx ! p) \<noteq> UINT32_MAX \<and> \<not> slot_matches idx sig p"
    and "pos < length (m_table idx)"
  shows "search_probe idx sig pos = None"
proof (cases "search_probe idx sig pos")
  case None
  then show ?thesis .
next
  case (Some y)
  from full_probe_never_returns[OF this] assms show ?thesis by blast
qed

lemma full_table_probe_diverges: "search_probe full_table_odv [2, 1] 0 = None"
  by (rule full_probe_diverges)
    (simp_all add: full_table_odv_def slot_matches_def UINT32_MAX_def u32_def)

lemma search_buckets_returns:
  assumes "\<And>b. b \<in> set bs \<Longrightarrow>
      \<exists>r. odv_search (m_odv_indexes idx ! b) (drop (m_bucket_begs idx ! b) query) = Some r"
  shows "\<exists>r. search_buckets idx query bs cm = Some r"
  using assms
proof (induction bs arbitrary: cm)
  case Nil
  then show ?case by simp
next
  case (Cons b bs)
  obtain r where
    r: "odv_search (m_odv_indexes idx ! b) (drop (m_bucket_begs idx ! b) query) = Some r"
    using Cons.prems[of b] by auto
  show ?case
  proof (cases r)
    case (Inl e)
    then show ?thesis using r by simp
  next
    case (Inr ids)
    obtain r' where "search_buckets idx query bs (fold_match_map (collect_matches ids) cm) = Some r'"
      using Cons.IH[of "fold_match_map (collect_matches ids) cm"] Cons.prems by auto
    then show ?thesis using r Inr by simp
  qed
qed

lemma hm_search_returns:
  assumes "\<And>b. b < m_buckets idx \<Longrightarrow>
      \<exists>r. odv_search (m_odv_indexes idx ! b) (drop (m_bucket_begs idx ! b) query) = Some r"
  shows "\<exists>r. hm_search idx query hamming_range = Some r"
proof -
  obtain r where r: "search_buckets idx query [0..<m_buckets idx] [] = Some r"
    using search_buckets_returns[of "[0..<m_buckets idx]" idx query "[]"] assms by auto
  show ?thesis
  proof (cases "m_buckets idx = get_proper_buckets hamming_range")
    case False
    then show ?thesis by (simp add: hm_search_def)
  next
    case True
    show ?thesis unfolding hm_search_def True[symmetric] r by (cases r) simp_all
  qed
qed

lemma built_probes_return:
  "(\<exists>r. hm_build keys len a buckets = Some r) \<and>
   (hm_build keys len a buckets = Some (Inr idx) \<longrightarrow>
    list_all (\<lambda>key. len \<le> length key) keys \<longrightarrow>
    1 \<le> buckets \<longrightarrow> buckets \<le> len \<longrightarrow> len \<le> length query \<longrightarrow>
      (\<forall>b<buckets. \<exists>r. odv_search (m_odv_indexes idx ! b)
                            (drop (m_bucket_begs idx ! b) query) = Some r) \<and>
      (\<exists>r. hm_search idx query hamming_range = Some r))"
proof (intro conjI impI)
  show "\<exists>r. hm_build keys len a buckets = Some r" by (rule hm_build_returns)
next
  assume b: "hm_build keys len a buckets = Some (Inr idx)"
    and wf: "list_all (\<lambda>key. len \<le> length key) keys"
    and B: "1 \<le> buckets" "buckets \<le> len" and q: "len \<le> length query"
  have B0: "0 < buckets" using B(1) by simp
  have L: "len \<le> 64" and begs: "m_bucket_begs idx = plan_buckets len buckets"
    and mb: "m_buckets idx = buckets"
    using hm_build_fields[OF b] by simp_all
  have probe: "\<exists>r. odv_search (m_odv_indexes idx ! b) (drop (m_bucket_begs idx ! b) query) = Some r"
    if "b < buckets" for b
  proof -
    let ?beg = "bucket_beg len buckets b" and ?w = "(len + b) div buckets"
    have beg: "plan_buckets len buckets ! b = ?beg" using that by (simp add: plan_buckets_nth)
    have w: "bucket_width (plan_buckets len buckets) b = ?w"
      using bucket_width_plan[OF B0 B(2) L that] .
    have "bucket_beg len buckets (Suc b) \<le> len"
      using bucket_beg_bound[OF B0 B(2) L, of "Suc b"] that by simp
    then have fit: "?beg + ?w \<le> len" using bucket_beg_Suc[OF B0 B(2) L that] by simp
    have odv: "odv_build (map (drop ?beg) keys) ?w a = Some (Inr (m_odv_indexes idx ! b))"
      using hm_build_bucket(1)[OF b that] unfolding beg w .
    have k: "\<forall>key\<in>set (map (drop ?beg) keys). ?w \<le> length key"
      using wf fit by (auto simp: list_all_iff)
    have "?w \<le> length (drop ?beg query)" using q fit by simp
    from odv_probe_returns[OF odv k this] show ?thesis unfolding begs beg .
  qed
  then show "\<forall>b<buckets. \<exists>r. odv_search (m_odv_indexes idx ! b)
                            (drop (m_bucket_begs idx ! b) query) = Some r"
    by simp
  show "\<exists>r. hm_search idx query hamming_range = Some r"
    by (rule hm_search_returns) (simp add: mb probe)
qed

text \<open>
  Claim C6 (probes and corrupt tables), as amended. The probe loop has no bound and no
  error of its own: in a table without a vacant slot, the probe for a signature that no
  slot holds never returns. A table that \<open>build\<close> made is never in that state. Every
  \<open>build\<close> returns (with an index or with an error), and in an index that \<open>build\<close>
  produced from keys of the full length with \<open>1 \<le> buckets \<le> length\<close>, the probes of every
  bucket, and with them every search, return: a table of two or more signatures keeps a
  vacant slot, and the single signature of a one-signature table is the one that every
  query slice has.
\<close>

theorem built_index_probes_return:
  "(\<exists>r. hm_build keys len a buckets = Some r) \<and>
   (hm_build keys len a buckets = Some (Inr idx) \<longrightarrow>
    list_all (\<lambda>key. len \<le> length key) keys \<longrightarrow>
    1 \<le> buckets \<longrightarrow> buckets \<le> len \<longrightarrow> len \<le> length query \<longrightarrow>
      (\<forall>b<buckets. \<exists>r. odv_search (m_odv_indexes idx ! b)
                            (drop (m_bucket_begs idx ! b) query) = Some r) \<and>
      (\<exists>r. hm_search idx query hamming_range = Some r)) \<and>
   ((\<forall>p<length (m_table odv).
        sig_pos (m_table odv ! p) \<noteq> UINT32_MAX \<and> \<not> slot_matches odv sig p) \<longrightarrow>
    pos < length (m_table odv) \<longrightarrow> search_probe odv sig pos = None)"
  using built_probes_return[of keys len a buckets idx query hamming_range]
    full_probe_diverges[of odv sig pos] by blast

text \<open>Witness for C6: the scenario index, and a table without a vacant slot.\<close>

theorem built_index_probes_return_witness:
  "hm_build scenario_keys 4 2 2 = Some (Inr scenario_index) \<and>
   list_all (\<lambda>key. 4 \<le> length key) scenario_keys \<and>
   (\<exists>r. odv_search (m_odv_indexes scenario_index ! 0)
          (drop (m_bucket_begs scenario_index ! 0) [0, 0, 0, 0]) = Some r) \<and>
   (\<exists>r. odv_search (m_odv_indexes scenario_index ! 1)
          (drop (m_bucket_begs scenario_index ! 1) [0, 0, 0, 0]) = Some r) \<and>
   (\<exists>r. hm_search scenario_index [0, 0, 0, 0] 2 = Some r) \<and>
   sig_pos (m_table full_table_odv ! 0) \<noteq> UINT32_MAX \<and>
   \<not> slot_matches full_table_odv [2, 1] 0 \<and>
   length (m_table full_table_odv) = 1 \<and>
   search_probe full_table_odv [2, 1] 0 = None"
proof -
  have wf: "list_all (\<lambda>key. 4 \<le> length key) scenario_keys" by (simp add: scenario_keys_def)
  have h: "(1::nat) \<le> 2" "(2::nat) \<le> 4" "4 \<le> length [0::nat, 0, 0, 0]" by simp_all
  note t = built_index_probes_return [where keys = scenario_keys and len = 4 and a = 2
      and buckets = 2 and idx = scenario_index and query = "[0, 0, 0, 0]"
      and hamming_range = 2, THEN conjunct2, THEN conjunct1, rule_format,
      OF scenario_build wf h]
  have p: "\<exists>r. odv_search (m_odv_indexes scenario_index ! b)
          (drop (m_bucket_begs scenario_index ! b) [0, 0, 0, 0]) = Some r" if "b < 2" for b
    using t that by blast
  have f: "sig_pos (m_table full_table_odv ! 0) \<noteq> UINT32_MAX"
    "\<not> slot_matches full_table_odv [2, 1] 0" "length (m_table full_table_odv) = 1"
    by (simp_all add: full_table_odv_def slot_matches_def UINT32_MAX_def u32_def)
  have "\<forall>p<length (m_table full_table_odv).
        sig_pos (m_table full_table_odv ! p) \<noteq> UINT32_MAX \<and>
        \<not> slot_matches full_table_odv [2, 1] p"
    using f by simp
  moreover have "0 < length (m_table full_table_odv)" using f(3) by simp
  ultimately have d: "search_probe full_table_odv [2, 1] 0 = None"
    using built_index_probes_return [where odv = full_table_odv and sig = "[2, 1]" and pos = 0,
        THEN conjunct2, THEN conjunct2]
    by blast
  show ?thesis using scenario_build wf p[of 0] p[of 1] t f d by simp
qed

text \<open>
  Counterexample to C6 as stated: in a table whose only slot is occupied, the probe for a
  signature that is not stored goes round without end; it does not fail with an error.
\<close>

theorem full_table_probe_runs_forever: "odv_search full_table_odv [1, 1] = None"
proof -
  have "[0..<m_length full_table_odv] = [0, 1]" by (simp add: full_table_odv_def upt_rec)
  moreover have "make_signature (m_length full_table_odv) (m_del_marker full_table_odv) [1, 1] 0
                   = [2, 1]"
    by (simp add: full_table_odv_def make_signature_def)
  moreover have "length (m_table full_table_odv) = 1" by (simp add: full_table_odv_def)
  ultimately show ?thesis
    unfolding odv_search_def using full_table_probe_diverges by simp
qed

subsection \<open>Serialization\<close>

lemma odv_round_trip:
  assumes "sdsl_round_trip io" and "representable_odv idx"
  shows "odv_load io (odv_serialize io idx @ rest) = Some (idx, rest)"
proof -
  from assms(1) have
    u: "\<And>x rest. representable_u32 x \<Longrightarrow> read_u32 io (write_u32 io x @ rest) = Some (x, rest)"
    and uv: "\<And>xs rest. representable_size xs \<Longrightarrow> list_all representable_u32 xs \<Longrightarrow>
         read_u32_vector io (write_u32_vector io xs @ rest) = Some (xs, rest)"
    and tb: "\<And>t rest. representable_size t \<Longrightarrow> list_all representable_element t \<Longrightarrow>
         read_table io (write_table io t @ rest) = Some (t, rest)"
    and iv: "\<And>v rest. representable_int_vector v \<Longrightarrow>
         read_int_vector io (write_int_vector io v @ rest) = Some (v, rest)"
    unfolding sdsl_round_trip_def by blast+
  from assms(2) have r: "representable_size (m_table idx)"
    "list_all representable_element (m_table idx)"
    "representable_size (m_ids idx)" "list_all representable_u32 (m_ids idx)"
    "representable_int_vector (m_signatures idx)"
    "representable_u32 (m_length idx)" "representable_u32 (m_del_marker idx)"
    unfolding representable_odv_def by simp_all
  show ?thesis
    unfolding odv_load_def odv_serialize_def
    by (simp add: tb[OF r(1,2)] uv[OF r(3,4)] iv[OF r(5)] u[OF r(6)] u[OF r(7)])
qed

lemma hm_round_trip:
  assumes "sdsl_round_trip io" and "representable_index idx"
  shows "hm_load io (hm_serialize io idx @ rest) = Some (idx, rest)"
proof -
  from assms(1) have
    u: "\<And>x rest. representable_u32 x \<Longrightarrow> read_u32 io (write_u32 io x @ rest) = Some (x, rest)"
    and uv: "\<And>xs rest. representable_size xs \<Longrightarrow> list_all representable_u32 xs \<Longrightarrow>
         read_u32_vector io (write_u32_vector io xs @ rest) = Some (xs, rest)"
    and iv: "\<And>v rest. representable_int_vector v \<Longrightarrow>
         read_int_vector io (write_int_vector io v @ rest) = Some (v, rest)"
    and vec: "\<And>put get xs rest. representable_size xs \<Longrightarrow>
         (\<forall>x\<in>set xs. \<forall>r. get (put x @ r) = Some (x, r)) \<Longrightarrow>
         read_vector io get (write_vector io put xs @ rest) = Some (xs, rest)"
    unfolding sdsl_round_trip_def by blast+
  from assms(2) have r: "representable_size (m_odv_indexes idx)"
    "list_all representable_odv (m_odv_indexes idx)"
    "representable_size (m_bucket_begs idx)" "list_all representable_u32 (m_bucket_begs idx)"
    "representable_u32 (m_hm_length idx)" "representable_u32 (m_alphabet_size idx)"
    "representable_u32 (m_buckets idx)" "representable_int_vector (m_vertical_keys idx)"
    "representable_u32 (m_vertical_levels idx)"
    unfolding representable_index_def by simp_all
  have el: "\<forall>x\<in>set (m_odv_indexes idx). \<forall>r. odv_load io (odv_serialize io x @ r) = Some (x, r)"
    using r(2) odv_round_trip[OF assms(1)] by (auto simp: list_all_iff)
  show ?thesis
    unfolding hm_load_def hm_serialize_def
    by (simp add: vec[OF r(1) el] uv[OF r(3,4)] u[OF r(5)] u[OF r(6)] u[OF r(7)] iv[OF r(8)]
        u[OF r(9)])
qed

lemma length_le_bytes: "length (le_bytes n x) = n"
  by (induction n arbitrary: x) simp_all

lemma le_value_le_bytes: "x < 256 ^ n \<Longrightarrow> le_value (le_bytes n x) = x"
proof (induction n arbitrary: x)
  case 0
  then show ?case by simp
next
  case (Suc n)
  have "x div 256 < 256 ^ n" using Suc.prems by (simp add: less_mult_imp_div_less mult.commute)
  then have "le_value (le_bytes n (x div 256)) = x div 256" by (rule Suc.IH)
  then show ?case by simp
qed

lemma read_le_round_trip:
  "x < 256 ^ n \<Longrightarrow> read_le n (le_bytes n x @ rest) = Some (x, rest)"
  by (simp add: read_le_def length_le_bytes le_value_le_bytes)

lemma read_many_round_trip:
  "\<forall>x\<in>set xs. \<forall>r. get (put x @ r) = Some (x, r) \<Longrightarrow>
   read_many get (length xs) (concat (map put xs) @ rest) = Some (xs, rest)"
  by (induction xs) simp_all

lemma read_sized_round_trip:
  assumes "representable_size xs" and "\<forall>x\<in>set xs. \<forall>r. get (put x @ r) = Some (x, r)"
  shows "read_sized get (write_sized put xs @ rest) = Some (xs, rest)"
proof -
  have "length xs < 256 ^ 8" using assms(1) by (simp add: representable_size_def)
  then have "read_le 8 (le_bytes 8 (length xs) @ concat (map put xs) @ rest)
               = Some (length xs, concat (map put xs) @ rest)"
    by (rule read_le_round_trip)
  then show ?thesis
    unfolding read_sized_def write_sized_def
    by (simp add: read_many_round_trip[OF assms(2)])
qed

lemma read_u32_round_trip:
  "representable_u32 x \<Longrightarrow> read_le 4 (le_bytes 4 x @ rest) = Some (x, rest)"
  by (rule read_le_round_trip) (simp add: representable_u32_def)

lemma read_element_round_trip:
  assumes "representable_element e"
  shows "read_element (write_element e @ rest) = Some (e, rest)"
proof -
  have r: "representable_u32 (sig_pos e)" "representable_u32 (id_beg e)"
    "representable_u32 (id_end e)"
    using assms by (simp_all add: representable_element_def)
  show ?thesis
    unfolding read_element_def write_element_def
    by (simp add: read_u32_round_trip[OF r(1)] read_u32_round_trip[OF r(2)]
        read_u32_round_trip[OF r(3)])
qed

lemma read_iv_round_trip:
  assumes "representable_int_vector v"
  shows "read_iv (write_iv v @ rest) = Some (v, rest)"
proof -
  have w: "iv_width v \<le> 64" and s: "representable_size (iv_data v)"
    and d: "list_all (\<lambda>x. x < 2 ^ iv_width v) (iv_data v)"
    using assms by (simp_all add: representable_int_vector_def)
  have "iv_width v < 256 ^ 1" using w by simp
  then have 1: "read_le 1 (le_bytes 1 (iv_width v) @ r) = Some (iv_width v, r)" for r
    by (rule read_le_round_trip)
  have "(2::nat) ^ iv_width v \<le> 2 ^ 64" using w by (rule power_increasing) simp
  then have "\<forall>x\<in>set (iv_data v). x < 256 ^ 8" using d by (auto simp: list_all_iff)
  then have el: "\<forall>x\<in>set (iv_data v). \<forall>r. read_le 8 (le_bytes 8 x @ r) = Some (x, r)"
    by (simp add: read_le_round_trip)
  show ?thesis
    unfolding read_iv_def write_iv_def append_assoc 1
    by (simp add: read_sized_round_trip[OF s el])
qed

lemma le_io_round_trip: "sdsl_round_trip le_io"
  unfolding sdsl_round_trip_def le_io_def
  by (simp add: read_u32_round_trip read_iv_round_trip read_sized_round_trip
      read_element_round_trip list_all_iff)

lemma scenario_representable: "representable_index scenario_index"
  by (simp add: representable_index_def representable_odv_def representable_int_vector_def
      representable_element_def representable_u32_def representable_size_def
      scenario_index_def scenario_odv_0_def scenario_odv_1_def)

text \<open>
  Claim C8 (serialization round trip). \<open>serialize\<close> and \<open>load\<close> of both classes name their
  members in the same order. So, whenever the library functions give back what they
  wrote, \<open>load\<close> applied to the bytes that \<open>serialize\<close> wrote for an index yields that very
  index, with nothing left unread, and hence the same candidates and the same emitted ids
  for every query and range.
\<close>

theorem serialization_round_trip:
  assumes "sdsl_round_trip io" and "representable_index idx"
  shows "\<exists>loaded. hm_load io (hm_serialize io idx) = Some (loaded, []) \<and>
           loaded = idx \<and>
           hm_search loaded query hamming_range = hm_search idx query hamming_range \<and>
           search_buckets loaded query [0..<m_buckets loaded] []
             = search_buckets idx query [0..<m_buckets idx] []"
  using hm_round_trip[OF assms, of "[]"] by simp

text \<open>Witness for C8: the scenario index and the little-endian instance of the library
  functions.\<close>

theorem serialization_round_trip_witness:
  "sdsl_round_trip le_io \<and> representable_index scenario_index \<and>
   (\<exists>loaded. hm_load le_io (hm_serialize le_io scenario_index) = Some (loaded, []) \<and>
      loaded = scenario_index \<and>
      hm_search loaded [0, 0, 0, 0] 2 = hm_search scenario_index [0, 0, 0, 0] 2 \<and>
      search_buckets loaded [0, 0, 0, 0] [0..<m_buckets loaded] []
        = search_buckets scenario_index [0, 0, 0, 0] [0..<m_buckets scenario_index] [])"
  using le_io_round_trip scenario_representable
    serialization_round_trip [OF le_io_round_trip scenario_representable,
      of "[0, 0, 0, 0]" 2]
  by (intro conjI)

end
